theory Spec2Isabelle
  imports Complex_Main "HOL-Library.Word" "HOL-Library.Multiset"
begin

unbundle bit_operations_syntax

section \<open>Data model\<close>

text \<open>
  The codec of \<^verbatim>\<open>main.py\<close> works on NumPy arrays. A \<^verbatim>\<open>uint8\<close> sample is an
  8-bit word. A bit array (the result of \<^verbatim>\<open>np.unpackbits\<close>, which only holds the
  values 0 and 1) is a list of booleans, \<open>True\<close> for the bit 1.
\<close>

type_synonym u8 = "8 word"

definition REDUNDANCY :: nat where
  "REDUNDANCY = 3"

section \<open>Bit I/O\<close>

text \<open>\<^verbatim>\<open>np.unpackbits\<close> of one byte: its eight bits, most significant first.\<close>

definition unpackbits_u8 :: "u8 \<Rightarrow> bool list" where
  "unpackbits_u8 x = map (bit x) [7, 6, 5, 4, 3, 2, 1, 0]"

definition bits_from_bytes :: "u8 list \<Rightarrow> bool list" where
  "bits_from_bytes data = concat (map unpackbits_u8 data)"

section \<open>Redundancy coding\<close>

text \<open>\<^verbatim>\<open>np.repeat(bits, k)\<close>: every element \<open>k\<close> times in a row.\<close>

definition np_repeat :: "'a list \<Rightarrow> nat \<Rightarrow> 'a list" where
  "np_repeat xs k = concat (map (replicate k) xs)"

text \<open>\<^verbatim>\<open>a.reshape(-1, k)\<close> of a flat array whose length is a multiple of \<open>k\<close>.\<close>

definition reshape_rows :: "'a list \<Rightarrow> nat \<Rightarrow> 'a list list" where
  "reshape_rows xs k = map (\<lambda>i. take k (drop (i * k) xs)) [0..<length xs div k]"

text \<open>
  \<^verbatim>\<open>decode_redundancy\<close>: cut the buffer to a multiple of \<open>REDUNDANCY\<close>, fold it into
  rows, sum every row and keep the rows whose sum reaches \<open>REDUNDANCY // 2 + 1\<close>.
\<close>

definition decode_redundancy :: "bool list \<Rightarrow> bool list" where
  "decode_redundancy raw_bits =
     (let raw_bits' =
            (if length raw_bits mod REDUNDANCY \<noteq> 0
             then take (length raw_bits - length raw_bits mod REDUNDANCY) raw_bits
             else raw_bits);
          blocks = reshape_rows raw_bits' REDUNDANCY;
          votes = map (\<lambda>row. length (filter (\<lambda>b. b) row)) blocks
      in map (\<lambda>v. REDUNDANCY div 2 + 1 \<le> v) votes)"

text \<open>
  The raw copies of source bit \<open>i\<close> are the positions \<open>REDUNDANCY * i + j\<close>. The predicate
  holds when at most one copy of every source bit differs from the bit.
\<close>

definition at_most_one_flip :: "bool list \<Rightarrow> bool list \<Rightarrow> bool" where
  "at_most_one_flip b raw =
     (length raw = REDUNDANCY * length b \<and>
      list_all (\<lambda>i. length (filter (\<lambda>j. raw ! (REDUNDANCY * i + j) \<noteq> b ! i) [0..<REDUNDANCY]) \<le> 1)
        [0..<length b])"

section \<open>Errors and external libraries\<close>

text \<open>
  Every \<^verbatim>\<open>raise\<close> of the source is a value of \<open>error\<close>, with the exception's class and
  message. \<open>IndexError\<close> is NumPy's, for an index outside an array; \<open>ZlibError\<close> is the
  \<^verbatim>\<open>zlib.error\<close> of \<^verbatim>\<open>zlib.decompress\<close>.
\<close>

datatype error =
    ValueError string
  | RuntimeError string
  | IndexError
  | ZlibError

text \<open>The error kinds of the specification, as the raises of the source that produce them.\<close>

definition CapacityExceeded :: error where
  "CapacityExceeded = ValueError ''Payload too large for this image.''"

definition PayloadMalformed :: "error \<Rightarrow> bool" where
  "PayloadMalformed e \<longleftrightarrow>
     e = ValueError ''Payload too small.'' \<or> e = ValueError ''Invalid payload name length.''"

definition DecompressError :: error where
  "DecompressError = ZlibError"

text \<open>
  The functions of \<^verbatim>\<open>hashlib\<close>, \<^verbatim>\<open>numpy.random\<close>, \<^verbatim>\<open>zlib\<close> and the UTF-8 codec are not
  code of the repository. They are parameters of the model:
  \<^item> \<open>sha256\<close>: \<^verbatim>\<open>hashlib.sha256(b).digest()\<close>;
  \<^item> \<open>rng_shuffle seed xs\<close>: the array \<open>xs\<close> after
    \<^verbatim>\<open>np.random.default_rng(seed).shuffle(xs)\<close>;
  \<^item> \<open>zlib_decompress\<close>: \<^verbatim>\<open>zlib.decompress\<close>, \<open>None\<close> where it raises \<^verbatim>\<open>zlib.error\<close>;
  \<^item> \<open>utf8_decode_replace\<close>: \<^verbatim>\<open>bytes.decode("utf-8", errors="replace")\<close>, which is total.
\<close>

record externals =
  sha256 :: "u8 list \<Rightarrow> u8 list"
  rng_shuffle :: "nat \<Rightarrow> nat list \<Rightarrow> nat list"
  zlib_decompress :: "u8 list \<Rightarrow> u8 list option"
  utf8_decode_replace :: "u8 list \<Rightarrow> string"

text \<open>A shuffle returns a permutation of its argument, whatever the seed.\<close>

definition shuffles :: "externals \<Rightarrow> bool" where
  "shuffles ext \<longleftrightarrow> (\<forall>seed xs. mset (rng_shuffle ext seed xs) = mset xs)"

text \<open>
  A float is a real number, or one of the two special values the code can produce. The
  rounding of floating-point arithmetic is not modelled.
\<close>

datatype float = Fin real | PosInf | NaN

section \<open>Images\<close>

text \<open>
  An RGB array of shape \<open>(h, w, 3)\<close> and type \<^verbatim>\<open>uint8\<close>, as \<^verbatim>\<open>image_to_array\<close> returns it.
  \<open>img_flat\<close> holds the samples in row-major order, so that sample \<open>ch\<close> of pixel \<open>idx\<close>
  (\<^verbatim>\<open>arr.reshape(-1, 3)[idx, ch]\<close>) is at position \<open>3 * idx + ch\<close>.
\<close>

record image =
  img_h :: nat
  img_w :: nat
  img_flat :: "u8 list"

text \<open>
  The invariant of such an array. A decoded raster has at least one pixel (OpenCV rejects
  an empty array).
\<close>

definition wf_image :: "image \<Rightarrow> bool" where
  "wf_image arr \<longleftrightarrow>
     0 < img_h arr \<and> 0 < img_w arr \<and> length (img_flat arr) = 3 * (img_h arr * img_w arr)"

section \<open>Payload wrapper\<close>

text \<open>\<^verbatim>\<open>parse_inner_payload\<close>; the header is \<^verbatim>\<open>struct.unpack(">32sH", payload[:34])\<close>.\<close>

definition name_len_of :: "u8 list \<Rightarrow> nat" where
  "name_len_of payload = 256 * unat (payload ! 32) + unat (payload ! 33)"

definition parse_inner_payload ::
  "externals \<Rightarrow> u8 list \<Rightarrow> error + (u8 list \<times> string \<times> u8 list)" where
  "parse_inner_payload ext payload =
     (if length payload < 34 then Inl (ValueError ''Payload too small.'')
      else
        let data_hash = take 32 payload;
            name_len = name_len_of payload;
            name_start = 34;
            name_end = name_start + name_len
        in if length payload < name_end then Inl (ValueError ''Invalid payload name length.'')
           else
             let name = utf8_decode_replace ext (take (name_end - name_start) (drop name_start payload));
                 compressed = drop name_end payload
             in case zlib_decompress ext compressed of
                  None \<Rightarrow> Inl ZlibError
                | Some data \<Rightarrow> Inr (data_hash, name, data))"

section \<open>Edge-depth map\<close>

text \<open>
  \<^verbatim>\<open>cv2.cvtColor(arr, cv2.COLOR_RGB2GRAY)\<close> on 8-bit samples: OpenCV computes
  \<open>0.299 R + 0.587 G + 0.114 B\<close> in fixed point, with coefficients that add up to \<open>2 ^ 15\<close>,
  and rounds to nearest.
\<close>

definition gray_of :: "u8 \<Rightarrow> u8 \<Rightarrow> u8 \<Rightarrow> u8" where
  "gray_of r g b = of_nat ((unat r * 9798 + unat g * 19235 + unat b * 3735 + 16384) div 32768)"

definition cvtColor_RGB2GRAY :: "image \<Rightarrow> u8 list" where
  "cvtColor_RGB2GRAY arr =
     map (\<lambda>idx. gray_of (img_flat arr ! (3 * idx)) (img_flat arr ! (3 * idx + 1))
                         (img_flat arr ! (3 * idx + 2)))
       [0..<img_h arr * img_w arr]"

text \<open>
  OpenCV's default border, \<^verbatim>\<open>BORDER_REFLECT_101\<close>: the coordinate one step outside
  \<open>[0, n)\<close> is mirrored at the edge sample, which is not repeated.
\<close>

definition reflect101 :: "nat \<Rightarrow> int \<Rightarrow> nat" where
  "reflect101 n i =
     (if n = 1 then 0
      else if i < 0 then nat (- i)
      else if int n \<le> i then nat (2 * int n - 2 - i)
      else nat i)"

text \<open>
  \<^verbatim>\<open>cv2.Laplacian(gray, cv2.CV_64F)\<close> with the default aperture \<open>ksize = 1\<close>: the filter
  with the kernel \<open>[0 1 0; 1 -4 1; 0 1 0]\<close>, as 64-bit floats.
\<close>

definition Laplacian :: "nat \<Rightarrow> nat \<Rightarrow> u8 list \<Rightarrow> real list" where
  "Laplacian h w gray =
     map (\<lambda>idx.
            let y = int (idx div w);
                x = int (idx mod w);
                px = (\<lambda>yy xx. int (unat (gray ! (reflect101 h yy * w + reflect101 w xx))))
            in real_of_int (px (y - 1) x + px (y + 1) x + px y (x - 1) + px y (x + 1)
                            - 4 * px y x))
       [0..<h * w]"

text \<open>
  The normalised edge magnitude of \<^verbatim>\<open>compute_edge_depth_map\<close>: the absolute value of the
  Laplacian, divided by its maximum plus \<open>1e-6\<close>. The samples of the Laplacian are
  integers of absolute value at most 1020, so the floating-point magnitudes are exact;
  the quotient is a real number here, and lemma \<open>depth_threshold_integer\<close> shows that the
  comparison with 0.25 is a comparison of integers, which rounding cannot change.
\<close>

definition edge_norm :: "image \<Rightarrow> real list" where
  "edge_norm arr =
     (let gray = cvtColor_RGB2GRAY arr;
          edges = Laplacian (img_h arr) (img_w arr) gray;
          mag = map abs edges;
          max_val = (if mag \<noteq> [] then Max (set mag) else 0)
      in map (\<lambda>m. m / (max_val + 1 / 1000000)) mag)"

text \<open>
  \<^verbatim>\<open>compute_edge_depth_map\<close>. The flag \<open>cv2\<close> tells whether the import of OpenCV
  succeeded when the module was loaded.
\<close>

definition compute_edge_depth_map :: "bool \<Rightarrow> image \<Rightarrow> error + nat list" where
  "compute_edge_depth_map cv2 arr =
     (if \<not> cv2 then Inl (RuntimeError ''OpenCV is required for adaptive embedding.'')
      else
        let norm = edge_norm arr;
            depth = map (\<lambda>n. if 1 / 4 < n then 2 else 1) norm
        in Inr depth)"

section \<open>Permutation\<close>

definition utf8_encode :: "string \<Rightarrow> u8 list" where
  "utf8_encode s = map (\<lambda>c. of_nat (of_char c)) s"

definition int_from_bytes_big :: "u8 list \<Rightarrow> nat" where
  "int_from_bytes_big bs = foldl (\<lambda>acc b. 256 * acc + unat b) 0 bs"

definition seed_from_key :: "externals \<Rightarrow> string \<Rightarrow> nat" where
  "seed_from_key ext passphrase =
     (let digest = sha256 ext (utf8_encode passphrase)
      in int_from_bytes_big (take 8 digest))"

section \<open>Embed and extract engine\<close>

text \<open>
  The result of one pass over the three channels of a pixel: the function has returned
  (the \<^verbatim>\<open>return\<close> inside the loop), or the loop over the pixels goes on with a state.
\<close>

datatype ('r, 's) flow = Return 'r | Continue 's

text \<open>\<^verbatim>\<open>range(3)\<close>: the channels R, G and B of a pixel, in this order.\<close>

definition channels :: "nat list" where
  "channels = [0, 1, 2]"

text \<open>
  The body of the loop \<^verbatim>\<open>for ch in range(3)\<close> of \<^verbatim>\<open>embed_bits\<close>: the chunk is packed
  most significant bit first into \<open>value\<close>, and the low \<open>take\<close> bits of the sample are
  replaced by it. The mask and the value are Python integers and \<^verbatim>\<open>~mask\<close> is negative:
  the expression is computed on integers, as NumPy 1 does when it promotes the mixed
  operands, and the store into the \<^verbatim>\<open>uint8\<close> array keeps the low eight bits.
\<close>

definition pack_chunk :: "bool list \<Rightarrow> int" where
  "pack_chunk bit_chunk = foldl (\<lambda>v bit. push_bit 1 v OR (if bit then 1 else 0)) 0 bit_chunk"

definition store_chunk :: "u8 \<Rightarrow> nat \<Rightarrow> bool list \<Rightarrow> u8" where
  "store_chunk x tk bit_chunk =
     (let v = pack_chunk bit_chunk;
          mask = push_bit tk 1 - (1 :: int)
      in word_of_int ((uint x AND NOT mask) OR v))"

fun embed_channels ::
  "bool list \<Rightarrow> nat \<Rightarrow> nat \<Rightarrow> nat list \<Rightarrow> u8 list \<Rightarrow> nat \<Rightarrow> (u8 list, u8 list \<times> nat) flow" where
  "embed_channels encoded_bits depth idx [] flat bit_idx = Continue (flat, bit_idx)"
| "embed_channels encoded_bits depth idx (ch # chs) flat bit_idx =
     (if length encoded_bits \<le> bit_idx then Return flat
      else
        let tk = min depth (length encoded_bits - bit_idx);
            bit_chunk = take tk (drop bit_idx encoded_bits);
            flat' = flat[3 * idx + ch := store_chunk (flat ! (3 * idx + ch)) tk bit_chunk]
        in embed_channels encoded_bits depth idx chs flat' (bit_idx + tk))"

text \<open>The array a pass over the channels leaves behind, returned or not.\<close>

definition flow_flat :: "('a, 'a \<times> nat) flow \<Rightarrow> 'a" where
  "flow_flat r = (case r of Return f \<Rightarrow> f | Continue (f, b) \<Rightarrow> f)"

text \<open>
  The loop \<^verbatim>\<open>for idx in order\<close> of \<^verbatim>\<open>embed_bits\<close>, and the \<^verbatim>\<open>return\<close> after it. An index
  outside the depth map raises. The entries of a depth map are 1 or 2 (lemma
  \<open>depth_map_values\<close>), so \<open>take\<close> is 1 or 2 in this loop and in the one of
  \<^verbatim>\<open>extract_bits\<close>.
\<close>

fun embed_loop ::
  "nat list \<Rightarrow> bool list \<Rightarrow> nat list \<Rightarrow> u8 list \<Rightarrow> nat \<Rightarrow> error + u8 list" where
  "embed_loop depth_map encoded_bits [] flat bit_idx = Inr flat"
| "embed_loop depth_map encoded_bits (idx # order) flat bit_idx =
     (if length depth_map \<le> idx then Inl IndexError
      else
        let depth = depth_map ! idx
        in if depth \<le> 0 then embed_loop depth_map encoded_bits order flat bit_idx
           else
             case embed_channels encoded_bits depth idx channels flat bit_idx of
               Return flat' \<Rightarrow> Inr flat'
             | Continue (flat', bit_idx') \<Rightarrow>
                 embed_loop depth_map encoded_bits order flat' bit_idx')"

definition embed_bits ::
  "bool \<Rightarrow> externals \<Rightarrow> image \<Rightarrow> bool list \<Rightarrow> string \<Rightarrow> error + image" where
  "embed_bits cv2 ext arr bits passphrase =
     (let h = img_h arr; w = img_w arr
      in case compute_edge_depth_map cv2 arr of
           Inl e \<Rightarrow> Inl e
         | Inr depth_map \<Rightarrow>
             let capacity_bits = sum_list depth_map * 3;
                 encoded_bits = np_repeat bits REDUNDANCY
             in if capacity_bits < length encoded_bits
                then Inl (ValueError ''Payload too large for this image.'')
                else
                  let flat = img_flat arr;
                      order = rng_shuffle ext (seed_from_key ext passphrase) [0..<h * w]
                  in case embed_loop depth_map encoded_bits order flat 0 of
                       Inl e \<Rightarrow> Inl e
                     | Inr flat' \<Rightarrow> Inr (arr\<lparr>img_flat := flat'\<rparr>))"

text \<open>
  The body of the loop \<^verbatim>\<open>for ch in range(3)\<close> of \<^verbatim>\<open>extract_bits\<close>: the low \<open>take\<close> bits
  of the sample, most significant first. \<^verbatim>\<open>unpackbits(...)[-take:]\<close> is the whole array
  of eight bits when \<open>take\<close> is 0.
\<close>

definition load_chunk :: "u8 \<Rightarrow> nat \<Rightarrow> bool list" where
  "load_chunk x tk =
     (let mask = push_bit tk 1 - (1 :: int);
          v = uint x AND mask;
          unpacked = unpackbits_u8 (word_of_int v)
      in if tk = 0 then unpacked else drop (8 - tk) unpacked)"

text \<open>
  The slice assignment \<^verbatim>\<open>raw_bits[bit_idx:bit_idx + take] = bits\<close> raises unless the two
  sides have the same length.
\<close>

fun extract_channels ::
  "u8 list \<Rightarrow> nat \<Rightarrow> nat \<Rightarrow> nat list \<Rightarrow> bool list \<Rightarrow> nat
     \<Rightarrow> error + (bool list, bool list \<times> nat) flow" where
  "extract_channels flat depth idx [] raw_bits bit_idx = Inr (Continue (raw_bits, bit_idx))"
| "extract_channels flat depth idx (ch # chs) raw_bits bit_idx =
     (if length raw_bits \<le> bit_idx then Inr (Return (decode_redundancy raw_bits))
      else
        let tk = min depth (length raw_bits - bit_idx);
            bits = load_chunk (flat ! (3 * idx + ch)) tk
        in if length bits \<noteq> tk then Inl (ValueError ''could not broadcast input array'')
           else extract_channels flat depth idx chs
                  (take bit_idx raw_bits @ bits @ drop (bit_idx + tk) raw_bits) (bit_idx + tk))"

fun extract_loop ::
  "nat list \<Rightarrow> u8 list \<Rightarrow> nat list \<Rightarrow> bool list \<Rightarrow> nat \<Rightarrow> error + bool list" where
  "extract_loop depth_map flat [] raw_bits bit_idx = Inr (decode_redundancy raw_bits)"
| "extract_loop depth_map flat (idx # order) raw_bits bit_idx =
     (if length depth_map \<le> idx then Inl IndexError
      else
        let depth = depth_map ! idx
        in if depth \<le> 0 then extract_loop depth_map flat order raw_bits bit_idx
           else
             case extract_channels flat depth idx channels raw_bits bit_idx of
               Inl e \<Rightarrow> Inl e
             | Inr (Return r) \<Rightarrow> Inr r
             | Inr (Continue (raw_bits', bit_idx')) \<Rightarrow>
                 extract_loop depth_map flat order raw_bits' bit_idx')"

text \<open>
  \<^verbatim>\<open>extract_bits\<close>. The bit count is a natural number: the callers pass
  \<^verbatim>\<open>HEADER_LEN * 8\<close> and \<^verbatim>\<open>(HEADER_LEN + payload_len) * 8\<close>. The raw buffer is
  \<^verbatim>\<open>np.zeros(total_bits * REDUNDANCY)\<close>.
\<close>

definition extract_bits ::
  "bool \<Rightarrow> externals \<Rightarrow> image \<Rightarrow> nat \<Rightarrow> string \<Rightarrow> error + bool list" where
  "extract_bits cv2 ext arr total_bits passphrase =
     (let h = img_h arr; w = img_w arr
      in case compute_edge_depth_map cv2 arr of
           Inl e \<Rightarrow> Inl e
         | Inr depth_map \<Rightarrow>
             let flat = img_flat arr;
                 order = rng_shuffle ext (seed_from_key ext passphrase) [0..<h * w];
                 raw_bits = replicate (total_bits * REDUNDANCY) False
             in extract_loop depth_map flat order raw_bits 0)"

section \<open>Fidelity metrics\<close>

record Metrics =
  mse :: float
  psnr :: float
  capacity_bytes :: int
  used_bytes :: int

text \<open>
  \<^verbatim>\<open>original.astype(np.float32) - stego.astype(np.float32)\<close> follows NumPy's broadcasting:
  the two shapes agree in each dimension, or one of them is 1 there and its only row or
  column is repeated.
\<close>

definition broadcastable :: "image \<Rightarrow> image \<Rightarrow> bool" where
  "broadcastable a b \<longleftrightarrow>
     (img_h a = img_h b \<or> img_h a = 1 \<or> img_h b = 1) \<and>
     (img_w a = img_w b \<or> img_w a = 1 \<or> img_w b = 1)"

definition bsample :: "image \<Rightarrow> nat \<Rightarrow> nat \<Rightarrow> nat \<Rightarrow> real" where
  "bsample a y x c =
     real (unat (img_flat a !
       (3 * ((if img_h a = 1 then 0 else y) * img_w a + (if img_w a = 1 then 0 else x)) + c)))"

definition np_diff :: "image \<Rightarrow> image \<Rightarrow> real list" where
  "np_diff a b =
     concat (map (\<lambda>y. concat (map (\<lambda>x. map (\<lambda>c. bsample a y x c - bsample b y x c) [0..<3])
                                  [0..<max (img_w a) (img_w b)]))
               [0..<max (img_h a) (img_h b)])"

text \<open>
  \<^verbatim>\<open>compute_metrics\<close>. \<^verbatim>\<open>used_bits\<close> is a Python integer and \<^verbatim>\<open>//\<close> rounds down, as \<open>div\<close>
  does on \<open>int\<close>.
\<close>

definition compute_metrics :: "bool \<Rightarrow> image \<Rightarrow> image \<Rightarrow> int \<Rightarrow> error + Metrics" where
  "compute_metrics cv2 original stego used_bits =
     (if \<not> broadcastable original stego
      then Inl (ValueError ''operands could not be broadcast together'')
      else
        let diff = np_diff original stego;
            mse = (if diff = [] then NaN
                   else Fin (sum_list (map (\<lambda>d. d ^ 2) diff) / real (length diff)));
            psnr = (case mse of
                      Fin m \<Rightarrow> if m = 0 then PosInf else Fin (20 * log 10 (255 / sqrt m))
                    | _ \<Rightarrow> NaN)
        in case compute_edge_depth_map cv2 original of
             Inl e \<Rightarrow> Inl e
           | Inr depth_map \<Rightarrow>
               let capacity_bits = int (sum_list depth_map * 3);
                   effective_bits = capacity_bits div int REDUNDANCY;
                   capacity_bytes = effective_bits div 8;
                   used_bytes = used_bits div 8
               in Inr \<lparr>mse = mse, psnr = psnr, capacity_bytes = capacity_bytes,
                        used_bytes = used_bytes\<rparr>)"

text \<open>
  The part of the handler \<^verbatim>\<open>embed\<close> after the frame has been built (\<^verbatim>\<open>payload\<close> is the
  header followed by the ciphertext): the bits, the embedding and the metrics.
\<close>

definition embed_payload ::
  "bool \<Rightarrow> externals \<Rightarrow> image \<Rightarrow> u8 list \<Rightarrow> string \<Rightarrow> error + (image \<times> Metrics)" where
  "embed_payload cv2 ext arr payload key =
     (let bits = bits_from_bytes payload
      in case embed_bits cv2 ext arr bits key of
           Inl e \<Rightarrow> Inl e
         | Inr stego \<Rightarrow>
             (case compute_metrics cv2 arr stego (int (length bits)) of
                Inl e \<Rightarrow> Inl e
              | Inr metrics \<Rightarrow> Inr (stego, metrics)))"

section \<open>Steganalysis scorer\<close>

text \<open>\<^verbatim>\<open>(arr[:, :, i] & 1).flatten()\<close>: the lowest bit of channel \<open>i\<close> of every pixel.\<close>

definition lsb_plane :: "image \<Rightarrow> nat \<Rightarrow> nat list" where
  "lsb_plane arr i =
     map (\<lambda>idx. unat (img_flat arr ! (3 * idx + i) AND 1)) [0..<img_h arr * img_w arr]"

text \<open>\<^verbatim>\<open>np.bincount(lsb, minlength=2)\<close> of an array that holds 0 and 1 only.\<close>

definition bincount2 :: "nat list \<Rightarrow> real list" where
  "bincount2 lsb =
     [real (length (filter (\<lambda>v. v = 0) lsb)), real (length (filter (\<lambda>v. v = 1) lsb))]"

definition lsb_entropy :: "real list \<Rightarrow> real" where
  "lsb_entropy counts =
     (let p = map (\<lambda>c. c / (sum_list counts + 1 / 10 ^ 9)) counts
      in - sum_list (map (\<lambda>q. q * log 2 (q + 1 / 10 ^ 12)) p))"

definition lsb_chi :: "real list \<Rightarrow> real" where
  "lsb_chi counts =
     (let expected = sum_list counts / 2
      in sum_list (map (\<lambda>c. (c - expected) ^ 2 / (expected + 1 / 10 ^ 9)) counts))"

text \<open>
  \<^verbatim>\<open>np.corrcoef(x, y)[0, 1]\<close>: the covariance with \<open>n - 1\<close> degrees of freedom, divided by
  both standard deviations and clipped to \<open>[-1, 1]\<close>. The divisions are floating-point
  divisions: with one observation, or with a constant \<open>x\<close> or \<open>y\<close>, the result is
  \<open>0 / 0\<close>, which is NaN.
\<close>

definition np_corrcoef :: "nat list \<Rightarrow> nat list \<Rightarrow> float" where
  "np_corrcoef xs ys =
     (let n = real (length xs);
          mx = sum_list (map real xs) / n;
          my = sum_list (map real ys) / n;
          dx = map (\<lambda>x. real x - mx) xs;
          dy = map (\<lambda>y. real y - my) ys;
          fact = n - 1;
          cxy = sum_list (map2 (*) dx dy) / fact;
          cxx = sum_list (map2 (*) dx dx) / fact;
          cyy = sum_list (map2 (*) dy dy) / fact
      in if fact \<le> 0 \<or> cxx = 0 \<or> cyy = 0 then NaN
         else Fin (max (- 1) (min 1 (cxy / sqrt cxx / sqrt cyy))))"

text \<open>\<^verbatim>\<open>np.mean(np.abs(corrs))\<close>: NaN as soon as one element is.\<close>

fun float_abs_sum :: "float list \<Rightarrow> float" where
  "float_abs_sum [] = Fin 0"
| "float_abs_sum (Fin c # cs) =
     (case float_abs_sum cs of Fin s \<Rightarrow> Fin (\<bar>c\<bar> + s) | PosInf \<Rightarrow> PosInf | NaN \<Rightarrow> NaN)"
| "float_abs_sum (PosInf # cs) = (case float_abs_sum cs of NaN \<Rightarrow> NaN | _ \<Rightarrow> PosInf)"
| "float_abs_sum (NaN # cs) = NaN"

definition detect_steg :: "image \<Rightarrow> float \<times> string" where
  "detect_steg arr =
     (let stats = map (\<lambda>i.
                    let lsb = lsb_plane arr i;
                        counts = bincount2 lsb;
                        entropy = lsb_entropy counts;
                        chi = lsb_chi counts;
                        corr = (if 1 < length lsb then np_corrcoef (butlast lsb) (tl lsb)
                                else Fin 0)
                    in (entropy, chi, corr)) [0..<3];
          entropies = map fst stats;
          chis = map (\<lambda>s. fst (snd s)) stats;
          corrs = map (\<lambda>s. snd (snd s)) stats;
          entropy_avg = sum_list entropies / real (length entropies) / 1;
          chi_norm = sum_list chis / real (length chis) / 5;
          score = (case float_abs_sum corrs of
                     Fin s \<Rightarrow>
                       let corr_avg = s / real (length corrs)
                       in Fin (55 / 100 * entropy_avg + 25 / 100 * (1 / (1 + chi_norm))
                               + 20 / 100 * (1 - corr_avg))
                   | PosInf \<Rightarrow> NaN
                   | NaN \<Rightarrow> NaN);
          label = (case score of
                     Fin s \<Rightarrow> if 62 / 100 \<le> s then ''Likely contains hidden data''
                              else ''Likely clean image''
                   | PosInf \<Rightarrow> ''Likely contains hidden data''
                   | NaN \<Rightarrow> ''Likely clean image'')
      in (score, label))"

text \<open>The score is a number of the interval \<open>[0, 1]\<close>.\<close>

definition in_unit_interval :: "float \<Rightarrow> bool" where
  "in_unit_interval s = (case s of Fin r \<Rightarrow> 0 \<le> r \<and> r \<le> 1 | PosInf \<Rightarrow> False | NaN \<Rightarrow> False)"

section \<open>Test data\<close>

text \<open>
  The image of size \<open>h\<close> by \<open>w\<close> whose samples all have the value \<open>v\<close>, such as the solid
  cover \<open>(255, 255, 255)\<close> of the specification's third scenario.
\<close>

definition solid :: "nat \<Rightarrow> nat \<Rightarrow> u8 \<Rightarrow> image" where
  "solid h w v = \<lparr>img_h = h, img_w = w, img_flat = replicate (3 * (h * w)) v\<rparr>"

text \<open>
  Stand-ins for the external libraries, to run the model on concrete inputs: a digest that
  pads or cuts its input to 32 bytes, a shuffle that reverses the array for an odd seed,
  a decompressor that accepts the streams starting with the byte \<open>0x78\<close> and returns the
  rest, and a decoder that keeps the ASCII bytes.
\<close>

definition toy_ext :: externals where
  "toy_ext =
     \<lparr>sha256 = (\<lambda>bs. take 32 (bs @ replicate 32 0)),
      rng_shuffle = (\<lambda>seed xs. if even seed then xs else rev xs),
      zlib_decompress = (\<lambda>bs. case bs of [] \<Rightarrow> None
                                 | b # rest \<Rightarrow> if b = 120 then Some rest else None),
      utf8_decode_replace = (\<lambda>bs. map (\<lambda>b. char_of (unat b)) (filter (\<lambda>b. b < 128) bs))\<rparr>"

section \<open>Redundancy coding: proofs\<close>

lemma reshape_rows_Cons3:
  "reshape_rows (x # y # z # xs) 3 = [x, y, z] # reshape_rows xs 3"
proof -
  have len: "length (x # y # z # xs) div 3 = Suc (length xs div 3)"
    by simp
  have u: "[0..<Suc (length xs div 3)] = 0 # map Suc [0..<length xs div 3]"
    by (simp add: upt_conv_Cons map_Suc_upt del: upt_Suc)
  have d: "drop (3 + n) (x # y # z # xs) = drop n xs" for n
    by (simp add: numeral_3_eq_3)
  show ?thesis
    unfolding reshape_rows_def len u by (simp add: comp_def d)
qed

lemma reshape_rows_short: "length xs < 3 \<Longrightarrow> reshape_rows xs 3 = []"
  by (simp add: reshape_rows_def)

lemma decode_redundancy_Cons3:
  "decode_redundancy (x # y # z # xs) =
     (2 \<le> length (filter (\<lambda>b. b) [x, y, z])) # decode_redundancy xs"
proof -
  have m: "length (x # y # z # xs) mod 3 = length xs mod 3"
    by simp
  have t: "take (length (x # y # z # xs) - length xs mod 3) (x # y # z # xs)
             = x # y # z # take (length xs - length xs mod 3) xs"
  proof -
    have "length xs mod 3 \<le> length xs" by simp
    then have "length (x # y # z # xs) - length xs mod 3
                 = Suc (Suc (Suc (length xs - length xs mod 3)))"
      by simp
    then show ?thesis by simp
  qed
  show ?thesis
    unfolding decode_redundancy_def REDUNDANCY_def m Let_def
    by (simp only: t reshape_rows_Cons3 list.map if_distrib [of "\<lambda>r. reshape_rows r 3"]
          if_distrib [of "map f" for f] split: if_splits) simp
qed

lemma decode_redundancy_Nil: "decode_redundancy [] = []"
  by (simp add: decode_redundancy_def reshape_rows_def REDUNDANCY_def)

lemma np_repeat_Cons3: "np_repeat (x # xs) 3 = x # x # x # np_repeat xs 3"
  by (simp add: np_repeat_def numeral_3_eq_3)

lemma decode_redundancy_repeat: "decode_redundancy (np_repeat b 3) = b"
proof (induction b)
  case Nil
  show ?case by (simp add: np_repeat_def decode_redundancy_Nil)
next
  case (Cons x b)
  then show ?case
    by (simp add: np_repeat_Cons3 decode_redundancy_Cons3)
qed

lemma upt_3: "[0..<3] = [0, 1, 2]"
  by (simp add: numeral_3_eq_3 upt_rec)

lemma at_most_one_flip_Cons:
  "at_most_one_flip (x # b) (p # q # r # raw) \<longleftrightarrow>
     length (filter (\<lambda>v. v \<noteq> x) [p, q, r]) \<le> 1 \<and> at_most_one_flip b raw"
proof -
  have u: "[0..<Suc (length b)] = 0 # map Suc [0..<length b]"
    by (simp add: upt_conv_Cons map_Suc_upt del: upt_Suc)
  have n: "(p # q # r # raw) ! (3 + k) = raw ! k" for k
    by (simp add: numeral_3_eq_3)
  have n': "(p # q # r # raw) ! (3 * Suc i + j) = raw ! (3 * i + j)" for i j
    using n [of "3 * i + j"] by (simp add: algebra_simps)
  have P0: "length (filter (\<lambda>j. (p # q # r # raw) ! (3 * 0 + j) \<noteq> (x # b) ! 0) [0, 1, 2]) \<le> 1
              \<longleftrightarrow> length (filter (\<lambda>v. v \<noteq> x) [p, q, r]) \<le> 1"
    by (simp add: numeral_2_eq_2)
  have PS: "(\<lambda>j. (p # q # r # raw) ! (3 * Suc i + j) \<noteq> (x # b) ! Suc i)
              = (\<lambda>j. raw ! (3 * i + j) \<noteq> b ! i)" for i
    by (simp only: n' nth_Cons_Suc)
  have len: "length (p # q # r # raw) = 3 * length (x # b) \<longleftrightarrow> length raw = 3 * length b"
    by simp
  show ?thesis
    unfolding at_most_one_flip_def REDUNDANCY_def len upt_3
    by (simp only: length_Cons u list.pred_inject list.pred_map comp_def P0 PS) blast
qed

lemma majority_of_flips:
  "length (filter (\<lambda>v. v \<noteq> x) [p, q, r]) \<le> 1 \<Longrightarrow>
     (2 \<le> length (filter (\<lambda>b. b) [p, q, r])) = x"
  by (cases x; cases p; cases q; cases r) simp_all

lemma decode_redundancy_flips:
  "at_most_one_flip b raw \<Longrightarrow> decode_redundancy raw = b"
proof (induction b arbitrary: raw)
  case Nil
  then show ?case
    by (simp add: at_most_one_flip_def decode_redundancy_Nil)
next
  case (Cons x b)
  from Cons.prems have "length raw = 3 * Suc (length b)"
    by (simp add: at_most_one_flip_def REDUNDANCY_def)
  then obtain p q r raw' where raw: "raw = p # q # r # raw'"
    by (cases raw; cases "tl raw"; cases "tl (tl raw)") auto
  from Cons.prems have one: "length (filter (\<lambda>v. v \<noteq> x) [p, q, r]) \<le> 1"
    and rest: "at_most_one_flip b raw'"
    unfolding raw at_most_one_flip_Cons by blast+
  show ?case
    unfolding raw decode_redundancy_Cons3
    using majority_of_flips [OF one] Cons.IH [OF rest] by simp
qed

text \<open>
  Claim C5. Expanding a bit vector by triple consecutive repetition and decoding it with
  the majority vote returns the vector; the decoder still returns it when at most one of
  the three raw copies of every source bit has been flipped.
\<close>

theorem redundancy_roundtrip:
  "decode_redundancy (np_repeat b REDUNDANCY) = b \<and>
   (at_most_one_flip b raw \<longrightarrow> decode_redundancy raw = b)"
  using decode_redundancy_repeat [of b] decode_redundancy_flips [of b raw]
  by (simp add: REDUNDANCY_def)

theorem redundancy_roundtrip_witness:
  "at_most_one_flip [True, False] [True, False, True, False, False, True] \<and>
   decode_redundancy (np_repeat [True, False] REDUNDANCY) = [True, False] \<and>
   decode_redundancy [True, False, True, False, False, True] = [True, False]"
proof -
  have h: "at_most_one_flip [True, False] [True, False, True, False, False, True]"
    by (simp add: at_most_one_flip_def REDUNDANCY_def upt_3 upt_rec numeral_2_eq_2)
  show ?thesis
    using h redundancy_roundtrip [of "[True, False]" "[True, False, True, False, False, True]"]
    by simp
qed

lemma gray_of_same: "gray_of v v v = v"
proof -
  have "unat v * 9798 + unat v * 19235 + unat v * 3735 + 16384 = unat v * 32768 + 16384"
    by simp
  then have "(unat v * 9798 + unat v * 19235 + unat v * 3735 + 16384) div 32768 = unat v"
    by simp
  then show ?thesis by (simp add: gray_of_def)
qed

lemma length_cvtColor: "length (cvtColor_RGB2GRAY arr) = img_h arr * img_w arr"
  by (simp add: cvtColor_RGB2GRAY_def)

lemma nth_cvtColor:
  "idx < img_h arr * img_w arr \<Longrightarrow>
   cvtColor_RGB2GRAY arr ! idx =
     gray_of (img_flat arr ! (3 * idx)) (img_flat arr ! (3 * idx + 1)) (img_flat arr ! (3 * idx + 2))"
  by (simp add: cvtColor_RGB2GRAY_def)

lemma length_Laplacian: "length (Laplacian h w g) = h * w"
  by (simp add: Laplacian_def)

lemma length_edge_norm: "length (edge_norm arr) = img_h arr * img_w arr"
  by (simp add: edge_norm_def Let_def length_Laplacian)

lemma depth_map_Inr:
  "compute_edge_depth_map True arr = Inr (map (\<lambda>n. if 1 / 4 < n then 2 else 1) (edge_norm arr))"
  by (simp add: compute_edge_depth_map_def)

lemma depth_map_length:
  "compute_edge_depth_map True arr = Inr dm \<Longrightarrow> length dm = img_h arr * img_w arr"
  by (auto simp: depth_map_Inr length_edge_norm)

lemma depth_map_values:
  "compute_edge_depth_map True arr = Inr dm \<Longrightarrow> d \<in> set dm \<Longrightarrow> d = 1 \<or> d = 2"
  by (auto simp: depth_map_Inr)

lemma reflect101_less:
  "0 < n \<Longrightarrow> - 1 \<le> i \<Longrightarrow> i \<le> int n \<Longrightarrow> reflect101 n i < n"
  by (auto simp: reflect101_def)

lemma pixel_index_less:
  fixes r c h w :: nat
  assumes "r < h" "c < w"
  shows "r * w + c < h * w"
proof -
  have "r * w + c < Suc r * w" using assms(2) by simp
  also have "\<dots> \<le> h * w" using assms(1) by (intro mult_le_mono1) simp
  finally show ?thesis .
qed

lemma neighbour_index_less:
  assumes "idx < h * w" "- 1 \<le> dy" "dy \<le> 1" "- 1 \<le> dx" "dx \<le> 1"
  shows "reflect101 h (int (idx div w) + dy) * w + reflect101 w (int (idx mod w) + dx) < h * w"
proof -
  from assms(1) have "0 < h * w" by (cases h; cases w; simp)
  then have w: "0 < w" and h: "0 < h" by simp_all
  have y: "idx div w < h"
    using assms(1) w by (simp add: less_mult_imp_div_less)
  have x: "idx mod w < w" using w by simp
  have yi: "int (idx div w) + dy \<le> int h" "- 1 \<le> int (idx div w) + dy"
    using y assms(2,3) by linarith+
  have "int (idx mod w) < int w" using x by (simp only: of_nat_less_iff)
  then have xi: "int (idx mod w) + dx \<le> int w" "- 1 \<le> int (idx mod w) + dx"
    using assms(4,5) by linarith+
  have "reflect101 h (int (idx div w) + dy) < h"
    using h yi by (intro reflect101_less)
  moreover have "reflect101 w (int (idx mod w) + dx) < w"
    using w xi by (intro reflect101_less)
  ultimately show ?thesis by (rule pixel_index_less)
qed

lemma nth_Laplacian:
  "idx < h * w \<Longrightarrow>
   Laplacian h w gray ! idx =
     real_of_int
       (int (unat (gray ! (reflect101 h (int (idx div w) - 1) * w + reflect101 w (int (idx mod w)))))
        + int (unat (gray ! (reflect101 h (int (idx div w) + 1) * w + reflect101 w (int (idx mod w)))))
        + int (unat (gray ! (reflect101 h (int (idx div w)) * w + reflect101 w (int (idx mod w) - 1))))
        + int (unat (gray ! (reflect101 h (int (idx div w)) * w + reflect101 w (int (idx mod w) + 1))))
        - 4 * int (unat (gray ! (reflect101 h (int (idx div w)) * w + reflect101 w (int (idx mod w))))))"
  by (simp add: Laplacian_def Let_def)

lemma Laplacian_constant:
  "Laplacian h w (replicate (h * w) v) = replicate (h * w) 0"
proof (rule nth_equalityI)
  show "length (Laplacian h w (replicate (h * w) v)) = length (replicate (h * w) (0 :: real))"
    by (simp add: length_Laplacian)
next
  fix idx assume "idx < length (Laplacian h w (replicate (h * w) v))"
  then have idx: "idx < h * w" by (simp add: length_Laplacian)
  have n: "replicate (h * w) v !
             (reflect101 h (int (idx div w) + dy) * w + reflect101 w (int (idx mod w) + dx)) = v"
    if "- 1 \<le> dy" "dy \<le> 1" "- 1 \<le> dx" "dx \<le> 1" for dy dx
    using neighbour_index_less [OF idx that] by simp
  show "Laplacian h w (replicate (h * w) v) ! idx = replicate (h * w) 0 ! idx"
    using n [of "- 1" 0] n [of 1 0] n [of 0 "- 1"] n [of 0 1] n [of 0 0] idx
    by (simp add: nth_Laplacian)
qed

text \<open>An image of one grey level has no edges: its depth is 1 everywhere.\<close>

lemma solid_sel:
  "img_h (solid h w v) = h" "img_w (solid h w v) = w"
  "img_flat (solid h w v) = replicate (3 * (h * w)) v"
  by (simp_all add: solid_def)

lemma cvtColor_solid: "cvtColor_RGB2GRAY (solid h w v) = replicate (h * w) v"
  by (rule nth_equalityI) (simp_all add: length_cvtColor nth_cvtColor solid_sel gray_of_same)

lemma edge_norm_solid: "edge_norm (solid h w v) = replicate (h * w) 0"
proof (cases "h * w = 0")
  case True
  then show ?thesis
    by (simp add: edge_norm_def Let_def cvtColor_solid Laplacian_constant solid_sel)
next
  case False
  then have "set (replicate (h * w) (0 :: real)) = {0}" by auto
  then show ?thesis
    using False
    by (simp add: edge_norm_def Let_def cvtColor_solid Laplacian_constant solid_sel)
qed

lemma depth_map_solid:
  "compute_edge_depth_map True (solid h w v) = Inr (replicate (h * w) 1)"
  by (simp add: depth_map_Inr edge_norm_solid)

lemma wf_solid: "0 < h \<Longrightarrow> 0 < w \<Longrightarrow> wf_image (solid h w v)"
  by (simp add: wf_image_def solid_sel)

text \<open>
  The magnitudes are integers, and for integers the threshold test does not depend on the
  rounding of the division: the quotient exceeds 0.25 exactly when four times the
  magnitude exceeds the maximum.
\<close>

lemma depth_threshold_integer:
  fixes m mx :: int
  assumes "0 \<le> mx"
  shows "1 / 4 < real_of_int m / (real_of_int mx + 1 / 1000000) \<longleftrightarrow> mx < 4 * m"
proof -
  have pos: "0 < real_of_int mx + 1 / 1000000" using assms by simp
  have "1 / 4 < real_of_int m / (real_of_int mx + 1 / 1000000)
          \<longleftrightarrow> real_of_int mx + 1 / 1000000 < 4 * real_of_int m"
    using pos by (simp add: field_simps)
  also have "\<dots> \<longleftrightarrow> mx < 4 * m"
  proof
    assume "real_of_int mx + 1 / 1000000 < 4 * real_of_int m"
    then have "real_of_int mx < real_of_int (4 * m)" by simp
    then show "mx < 4 * m" by (simp only: of_int_less_iff)
  next
    assume "mx < 4 * m"
    then have "mx + 1 \<le> 4 * m" by simp
    then have "real_of_int (mx + 1) \<le> real_of_int (4 * m)" by (simp only: of_int_le_iff)
    then show "real_of_int mx + 1 / 1000000 < 4 * real_of_int m" by simp
  qed
  finally show ?thesis .
qed

text \<open>
  Claim C4. For every RGB image the depth map has one entry per pixel, and every entry is
  1 or 2: it is 2 exactly when the normalised Laplacian magnitude of the pixel exceeds
  0.25, and 1 otherwise. No entry is 0, so the test \<open>depth \<le> 0\<close> of the two loops never
  succeeds on an entry of the map.
\<close>

theorem depth_map_range:
  "\<exists>dm. compute_edge_depth_map True arr = Inr dm \<and>
        length dm = img_h arr * img_w arr \<and>
        length (edge_norm arr) = img_h arr * img_w arr \<and>
        (\<forall>idx < img_h arr * img_w arr.
           (dm ! idx = 2 \<longleftrightarrow> 1 / 4 < edge_norm arr ! idx) \<and>
           (dm ! idx = 1 \<longleftrightarrow> \<not> 1 / 4 < edge_norm arr ! idx) \<and>
           (dm ! idx = 1 \<or> dm ! idx = 2) \<and>
           \<not> dm ! idx \<le> 0)"
  by (simp add: depth_map_Inr length_edge_norm)

theorem depth_map_range_witness:
  "compute_edge_depth_map True (solid 4 4 255) = Inr (replicate 16 1) \<and>
   edge_norm (solid 4 4 255) ! 5 = 0 \<and>
   replicate 16 (1 :: nat) ! 5 = 1 \<and> \<not> replicate 16 (1 :: nat) ! 5 \<le> 0"
proof -
  from depth_map_range [of "solid 4 4 255"]
  obtain dm where dm: "compute_edge_depth_map True (solid 4 4 255) = Inr dm"
    and r: "\<forall>idx < img_h (solid 4 4 255) * img_w (solid 4 4 255).
              (dm ! idx = 2 \<longleftrightarrow> 1 / 4 < edge_norm (solid 4 4 255) ! idx) \<and>
              (dm ! idx = 1 \<longleftrightarrow> \<not> 1 / 4 < edge_norm (solid 4 4 255) ! idx) \<and>
              (dm ! idx = 1 \<or> dm ! idx = 2) \<and> \<not> dm ! idx \<le> 0"
    by blast
  have "dm = replicate 16 1"
    using dm by (simp add: depth_map_solid)
  moreover have "(5 :: nat) < img_h (solid 4 4 255) * img_w (solid 4 4 255)"
    by (simp add: solid_sel)
  ultimately show ?thesis
    using r dm by (simp add: edge_norm_solid)
qed

section \<open>Embedding engine: proofs\<close>

lemma pack_step_bounds:
  fixes a :: int
  assumes "0 \<le> a" "a < 2 ^ n"
  shows "0 \<le> (push_bit 1 a OR (if bt then 1 else 0))"
    and "(push_bit 1 a OR (if bt then 1 else 0)) < 2 ^ Suc n"
proof -
  have a2: "0 \<le> push_bit 1 a" "push_bit 1 a < 2 ^ Suc n"
    using assms by (simp_all add: push_bit_eq_mult)
  have b: "(0 :: int) \<le> (if bt then 1 else 0)" "(if bt then 1 else 0) < (2 :: int) ^ Suc n"
    by (simp_all add: power_strict_increasing_iff less_le_trans [of _ "2 ^ 1"])
  show "0 \<le> (push_bit 1 a OR (if bt then 1 else 0))"
    using a2(1) b(1) by simp
  show "(push_bit 1 a OR (if bt then 1 else 0)) < 2 ^ Suc n"
    using a2 b by (intro OR_upper) auto
qed

lemma pack_foldl_bounds:
  fixes a :: int
  assumes "0 \<le> a" "a < 2 ^ n"
  shows "0 \<le> foldl (\<lambda>v bt. push_bit 1 v OR (if bt then 1 else 0)) a c \<and>
         foldl (\<lambda>v bt. push_bit 1 v OR (if bt then 1 else 0)) a c < 2 ^ (n + length c)"
  using assms
proof (induction c arbitrary: a n)
  case Nil
  then show ?case by simp
next
  case (Cons bt c)
  from Cons.IH [OF pack_step_bounds [OF Cons.prems, of bt]]
  show ?case by simp
qed

lemma pack_chunk_bounds: "0 \<le> pack_chunk c" "pack_chunk c < 2 ^ length c"
  using pack_foldl_bounds [of 0 0 c] by (simp_all add: pack_chunk_def)

lemma bit_pack_chunk_high: "length c \<le> m \<Longrightarrow> \<not> bit (pack_chunk c) m"
proof -
  assume m: "length c \<le> m"
  have "take_bit (length c) (pack_chunk c) = pack_chunk c"
    using pack_chunk_bounds [of c] by (simp add: take_bit_int_eq_self)
  then have "bit (pack_chunk c) m = bit (take_bit (length c) (pack_chunk c)) m"
    by simp
  then show ?thesis
    using m by (simp only: bit_take_bit_iff) simp
qed

lemma chunk_mask: "push_bit tk 1 - (1 :: int) = mask tk"
  by (simp add: mask_eq_exp_minus_1)

lemma store_chunk_high:
  assumes "tk \<le> d" "length chunk \<le> tk"
  shows "drop_bit d (store_chunk x tk chunk) = drop_bit d x"
proof (rule bit_word_eqI)
  fix n assume "n < LENGTH(8)"
  have "\<not> bit (pack_chunk chunk) (d + n)"
    using assms by (intro bit_pack_chunk_high) simp
  moreover have "\<not> bit (push_bit tk 1 - 1 :: int) (d + n)"
    unfolding chunk_mask using assms by (simp add: bit_mask_iff)
  ultimately show "bit (drop_bit d (store_chunk x tk chunk)) n = bit (drop_bit d x) n"
    unfolding store_chunk_def Let_def
    by (auto simp: bit_drop_bit_eq bit_word_of_int_iff bit_or_iff bit_and_iff
          bit_not_iff bit_uint_iff dest: bit_imp_le_length)
qed

lemma embed_channels_frame:
  assumes "\<forall>ch \<in> set chs. ch < 3"
  shows "length (flow_flat (embed_channels enc depth idx chs flat b)) = length flat \<and>
   (\<forall>j. j div 3 \<noteq> idx \<longrightarrow> flow_flat (embed_channels enc depth idx chs flat b) ! j = flat ! j) \<and>
   (\<forall>j. drop_bit depth (flow_flat (embed_channels enc depth idx chs flat b) ! j)
          = drop_bit depth (flat ! j))"
  using assms
proof (induction chs arbitrary: flat b)
  case Nil
  show ?case by (simp add: flow_flat_def)
next
  case (Cons ch chs)
  show ?case
  proof (cases "length enc \<le> b")
    case True
    then show ?thesis by (simp add: flow_flat_def)
  next
    case False
    define tk where "tk = min depth (length enc - b)"
    define flat' where
      "flat' = flat[3 * idx + ch := store_chunk (flat ! (3 * idx + ch)) tk (take tk (drop b enc))]"
    have step: "embed_channels enc depth idx (ch # chs) flat b
                  = embed_channels enc depth idx chs flat' (b + tk)"
      using False by (simp add: tk_def flat'_def Let_def)
    have len: "length flat' = length flat" by (simp add: flat'_def)
    have hi: "drop_bit depth (flat' ! j) = drop_bit depth (flat ! j)" for j
    proof (cases "j = 3 * idx + ch \<and> j < length flat")
      case True
      have "drop_bit depth (store_chunk (flat ! j) tk (take tk (drop b enc)))
              = drop_bit depth (flat ! j)"
        by (rule store_chunk_high) (simp_all add: tk_def)
      then show ?thesis using True by (simp add: flat'_def)
    next
      case False
      then have "j \<noteq> 3 * idx + ch \<or> length flat \<le> 3 * idx + ch" by auto
      then show ?thesis by (auto simp: flat'_def list_update_beyond)
    qed
    have ch: "ch < 3" using Cons.prems by simp
    have other: "flat' ! j = flat ! j" if "j div 3 \<noteq> idx" for j
    proof -
      have "(3 * idx + ch) div 3 = idx" using ch by simp
      then have "j \<noteq> 3 * idx + ch" using that by auto
      then show ?thesis by (simp add: flat'_def)
    qed
    have rest: "\<forall>ch \<in> set chs. ch < 3" using Cons.prems by simp
    from Cons.IH [OF rest, of flat' "b + tk"] show ?thesis
      unfolding step using len hi other by simp
  qed
qed

lemma embed_loop_frame:
  "embed_loop dm enc order flat b = Inr f \<Longrightarrow>
   length f = length flat \<and>
   (\<forall>j. drop_bit (dm ! (j div 3)) (f ! j) = drop_bit (dm ! (j div 3)) (flat ! j))"
proof (induction order arbitrary: flat b)
  case Nil
  then show ?case by simp
next
  case (Cons idx order)
  from Cons.prems have idx: "idx < length dm"
    by (simp split: if_splits)
  show ?case
  proof (cases "dm ! idx \<le> 0")
    case True
    with Cons.prems idx have "embed_loop dm enc order flat b = Inr f" by simp
    from Cons.IH [OF this] show ?thesis .
  next
    case False
    define r where "r = embed_channels enc (dm ! idx) idx channels flat b"
    have fr: "length (flow_flat r) = length flat"
      "\<And>j. j div 3 \<noteq> idx \<Longrightarrow> flow_flat r ! j = flat ! j"
      "\<And>j. drop_bit (dm ! idx) (flow_flat r ! j) = drop_bit (dm ! idx) (flat ! j)"
      using embed_channels_frame [of channels enc "dm ! idx" idx flat b]
      by (simp_all add: r_def channels_def del: embed_channels.simps)
    have one: "drop_bit (dm ! (j div 3)) (flow_flat r ! j) = drop_bit (dm ! (j div 3)) (flat ! j)"
      for j
      using fr(2) [of j] fr(3) [of j] by (cases "j div 3 = idx") simp_all
    show ?thesis
    proof (cases r)
      case (Return f')
      with Cons.prems idx False have "f = f'"
        by (simp add: r_def [symmetric] del: embed_channels.simps)
      then show ?thesis using fr(1) one Return by (simp add: flow_flat_def)
    next
      case (Continue s)
      obtain f' b' where s: "s = (f', b')" by (cases s)
      with Continue Cons.prems idx False have "embed_loop dm enc order f' b' = Inr f"
        by (simp add: r_def [symmetric] del: embed_channels.simps)
      from Cons.IH [OF this] show ?thesis
        using fr(1) one Continue s by (simp add: flow_flat_def)
    qed
  qed
qed

lemma embed_loop_total:
  "\<forall>idx \<in> set order. idx < length dm \<Longrightarrow> \<exists>f. embed_loop dm enc order flat b = Inr f"
proof (induction order arbitrary: flat b)
  case Nil
  show ?case by simp
next
  case (Cons idx order)
  then have idx: "idx < length dm" and rest: "\<forall>i \<in> set order. i < length dm"
    by simp_all
  show ?case
  proof (cases "embed_channels enc (dm ! idx) idx channels flat b")
    case (Return f')
    then show ?thesis
      using idx Cons.IH [OF rest] by (simp add: Let_def del: embed_channels.simps)
  next
    case (Continue s)
    then show ?thesis
      using idx Cons.IH [OF rest] by (cases s) (simp add: Let_def del: embed_channels.simps)
  qed
qed

lemma embed_loop_error:
  "embed_loop dm enc order flat b = Inl e \<Longrightarrow> e = IndexError"
proof (induction order arbitrary: flat b)
  case Nil
  then show ?case by simp
next
  case (Cons idx order)
  then show ?case
    by (auto simp: Let_def simp del: embed_channels.simps
          split: if_splits flow.splits prod.splits)
qed

lemma shuffles_order:
  assumes "shuffles ext"
  shows "set (rng_shuffle ext seed [0..<n]) = {..<n}"
    and "distinct (rng_shuffle ext seed [0..<n])"
    and "length (rng_shuffle ext seed [0..<n]) = n"
proof -
  from assms have m: "mset (rng_shuffle ext seed [0..<n]) = mset [0..<n]"
    by (simp add: shuffles_def)
  from mset_eq_setD [OF m] show "set (rng_shuffle ext seed [0..<n]) = {..<n}"
    by (simp add: lessThan_atLeast0)
  from m show "distinct (rng_shuffle ext seed [0..<n])"
    by (metis distinct_upt mset_eq_imp_distinct_iff)
  from mset_eq_length [OF m] show "length (rng_shuffle ext seed [0..<n]) = n"
    by simp
qed

lemma shuffles_toy: "shuffles toy_ext"
  by (simp add: shuffles_def toy_ext_def)

lemma length_np_repeat: "length (np_repeat xs k) = k * length xs"
  by (induction xs) (simp_all add: np_repeat_def)

lemma length_unpackbits: "length (unpackbits_u8 x) = 8"
  by (simp add: unpackbits_u8_def)

lemma length_bits_from_bytes: "length (bits_from_bytes data) = 8 * length data"
  by (induction data) (simp_all add: bits_from_bytes_def length_unpackbits)

lemma embed_bits_capacity:
  assumes "compute_edge_depth_map True arr = Inr dm"
  shows "embed_bits True ext arr bits p = Inl CapacityExceeded
           \<longleftrightarrow> sum_list dm * 3 < length (np_repeat bits REDUNDANCY)"
proof (cases "sum_list dm * 3 < length (np_repeat bits REDUNDANCY)")
  case True
  then show ?thesis
    using assms by (simp add: embed_bits_def CapacityExceeded_def Let_def)
next
  case False
  have "e = IndexError"
    if "embed_loop dm (np_repeat bits REDUNDANCY)
          (rng_shuffle ext (seed_from_key ext p) [0..<img_h arr * img_w arr]) (img_flat arr) 0
        = Inl e" for e
    using embed_loop_error [OF that] .
  then show ?thesis
    using False assms
    by (auto simp: embed_bits_def CapacityExceeded_def Let_def split: sum.splits)
qed

lemma embed_bits_succeeds:
  assumes "shuffles ext" "compute_edge_depth_map True arr = Inr dm"
    and "length (np_repeat bits REDUNDANCY) \<le> sum_list dm * 3"
  shows "\<exists>stego. embed_bits True ext arr bits p = Inr stego"
proof -
  have "length dm = img_h arr * img_w arr"
    using assms(2) by (rule depth_map_length)
  then have "\<forall>idx \<in> set (rng_shuffle ext (seed_from_key ext p) [0..<img_h arr * img_w arr]).
               idx < length dm"
    using shuffles_order(1) [OF assms(1)] by simp
  from embed_loop_total [OF this]
  obtain f where "embed_loop dm (np_repeat bits REDUNDANCY)
          (rng_shuffle ext (seed_from_key ext p) [0..<img_h arr * img_w arr]) (img_flat arr) 0
        = Inr f"
    by blast
  then show ?thesis
    using assms(2,3) by (simp add: embed_bits_def Let_def)
qed

lemma capacity_bytes_metrics:
  assumes "compute_edge_depth_map True arr = Inr dm"
    and "compute_metrics True arr arr' used_bits = Inr m"
  shows "capacity_bytes m = int (sum_list dm div 8)" and "used_bytes m = used_bits div 8"
proof -
  have "int (sum_list dm * 3) div 3 div 8 = int (sum_list dm div 8)"
    by (simp add: zdiv_int)
  then show "capacity_bytes m = int (sum_list dm div 8)"
    using assms
    by (auto simp: compute_metrics_def Let_def REDUNDANCY_def split: if_splits)
  show "used_bytes m = used_bits div 8"
    using assms by (auto simp: compute_metrics_def Let_def split: if_splits)
qed

text \<open>
  Claim C2. \<^verbatim>\<open>embed_bits\<close> fails with \<open>CapacityExceeded\<close> exactly when the expanded bit
  stream is longer than three times the sum of the depth map; the cover is not touched
  then, since no array is returned. A framed payload of exactly \<open>capacity_bytes\<close> bytes is
  embedded, and one of \<open>capacity_bytes + 1\<close> bytes fails with \<open>CapacityExceeded\<close>.
\<close>

theorem capacity_check:
  assumes "wf_image arr" and "shuffles ext"
    and "compute_edge_depth_map True arr = Inr dm"
    and "compute_metrics True arr arr' used_bits = Inr m"
  shows "(embed_bits True ext arr bits p = Inl CapacityExceeded
            \<longleftrightarrow> sum_list dm * 3 < length (np_repeat bits REDUNDANCY)) \<and>
         (int (length payload) = capacity_bytes m \<longrightarrow>
            (\<exists>stego. embed_bits True ext arr (bits_from_bytes payload) p = Inr stego)) \<and>
         (int (length payload) = capacity_bytes m + 1 \<longrightarrow>
            embed_bits True ext arr (bits_from_bytes payload) p = Inl CapacityExceeded)"
proof (intro conjI impI)
  show "embed_bits True ext arr bits p = Inl CapacityExceeded
          \<longleftrightarrow> sum_list dm * 3 < length (np_repeat bits REDUNDANCY)"
    using assms(3) by (rule embed_bits_capacity)
next
  assume "int (length payload) = capacity_bytes m"
  then have "length payload = sum_list dm div 8"
    using capacity_bytes_metrics(1) [OF assms(3,4)] by simp
  then have "length (np_repeat (bits_from_bytes payload) REDUNDANCY) \<le> sum_list dm * 3"
    by (simp add: length_np_repeat length_bits_from_bytes REDUNDANCY_def)
  then show "\<exists>stego. embed_bits True ext arr (bits_from_bytes payload) p = Inr stego"
    using assms(2,3) by (intro embed_bits_succeeds)
next
  assume "int (length payload) = capacity_bytes m + 1"
  then have "length payload = sum_list dm div 8 + 1"
    using capacity_bytes_metrics(1) [OF assms(3,4)] by linarith
  then have "sum_list dm * 3 < length (np_repeat (bits_from_bytes payload) REDUNDANCY)"
    by (simp add: length_np_repeat length_bits_from_bytes REDUNDANCY_def)
  then show "embed_bits True ext arr (bits_from_bytes payload) p = Inl CapacityExceeded"
    using embed_bits_capacity [OF assms(3)] by simp
qed

theorem capacity_check_witness:
  "\<exists>m. compute_metrics True (solid 4 4 255) (solid 4 4 255) 0 = Inr m \<and>
        capacity_bytes m = 2 \<and>
        (\<exists>stego. embed_bits True toy_ext (solid 4 4 255) (bits_from_bytes [83, 84]) ''k''
                    = Inr stego) \<and>
        embed_bits True toy_ext (solid 4 4 255) (bits_from_bytes [83, 84, 71]) ''k''
          = Inl CapacityExceeded"
proof -
  have wf: "wf_image (solid 4 4 255)" by (simp add: wf_solid)
  have dm: "compute_edge_depth_map True (solid 4 4 255) = Inr (replicate 16 1)"
    by (simp add: depth_map_solid)
  obtain m where m: "compute_metrics True (solid 4 4 255) (solid 4 4 255) 0 = Inr m"
    by (simp add: compute_metrics_def broadcastable_def dm Let_def)
  have cb: "capacity_bytes m = 2"
    using capacity_bytes_metrics(1) [OF dm m] by (simp add: sum_list_replicate)
  have "(\<exists>stego. embed_bits True toy_ext (solid 4 4 255) (bits_from_bytes [83, 84]) ''k''
                    = Inr stego)"
    using capacity_check [OF wf shuffles_toy dm m, of _ _ "[83, 84]"] cb by simp
  moreover have "embed_bits True toy_ext (solid 4 4 255) (bits_from_bytes [83, 84, 71]) ''k''
          = Inl CapacityExceeded"
    using capacity_check [OF wf shuffles_toy dm m, of _ _ "[83, 84, 71]"] cb by simp
  ultimately show ?thesis using m cb by blast
qed

text \<open>
  Claim C6. After a successful embedding the stego image has the shape of the cover, and
  every sample agrees with the cover's on all bits from position \<open>depth[pixel]\<close> upwards:
  only the low \<open>depth[pixel] \<le> 2\<close> bits of a sample are rewritten, so that the two images
  differ in the two lowest bits at most.
\<close>

theorem embed_frame_property:
  assumes "embed_bits True ext arr bits p = Inr stego"
  shows "img_h stego = img_h arr \<and> img_w stego = img_w arr \<and>
         length (img_flat stego) = length (img_flat arr) \<and>
         (\<exists>dm. compute_edge_depth_map True arr = Inr dm \<and>
            (\<forall>idx < img_h arr * img_w arr. \<forall>ch < 3.
               dm ! idx \<le> 2 \<and>
               drop_bit (dm ! idx) (img_flat stego ! (3 * idx + ch))
                 = drop_bit (dm ! idx) (img_flat arr ! (3 * idx + ch)) \<and>
               drop_bit 2 (img_flat stego ! (3 * idx + ch))
                 = drop_bit 2 (img_flat arr ! (3 * idx + ch))))"
proof -
  obtain dm where dm: "compute_edge_depth_map True arr = Inr dm"
    by (simp add: depth_map_Inr)
  from assms dm obtain f where
    loop: "embed_loop dm (np_repeat bits REDUNDANCY)
             (rng_shuffle ext (seed_from_key ext p) [0..<img_h arr * img_w arr]) (img_flat arr) 0
           = Inr f"
    and stego: "stego = arr\<lparr>img_flat := f\<rparr>"
    by (auto simp: embed_bits_def Let_def split: if_splits sum.splits)
  from embed_loop_frame [OF loop] have len: "length f = length (img_flat arr)"
    and hi: "\<And>j. drop_bit (dm ! (j div 3)) (f ! j) = drop_bit (dm ! (j div 3)) (img_flat arr ! j)"
    by simp_all
  have main: "dm ! idx \<le> 2 \<and>
       drop_bit (dm ! idx) (f ! (3 * idx + ch)) = drop_bit (dm ! idx) (img_flat arr ! (3 * idx + ch)) \<and>
       drop_bit 2 (f ! (3 * idx + ch)) = drop_bit 2 (img_flat arr ! (3 * idx + ch))"
    if "idx < img_h arr * img_w arr" "ch < 3" for idx ch
  proof -
    have "idx < length dm" using that(1) depth_map_length [OF dm] by simp
    then have "dm ! idx = 1 \<or> dm ! idx = 2"
      using depth_map_values [OF dm] nth_mem by blast
    then have d: "dm ! idx \<le> 2" by auto
    have "(3 * idx + ch) div 3 = idx" using that(2) by simp
    with hi [of "3 * idx + ch"]
    have e: "drop_bit (dm ! idx) (f ! (3 * idx + ch))
               = drop_bit (dm ! idx) (img_flat arr ! (3 * idx + ch))"
      by simp
    have two: "drop_bit 2 x = drop_bit (2 - dm ! idx) (drop_bit (dm ! idx) x)" for x :: u8
      using d by (simp add: drop_bit_drop_bit)
    have "drop_bit 2 (f ! (3 * idx + ch)) = drop_bit 2 (img_flat arr ! (3 * idx + ch))"
      by (simp only: two e)
    with d e show ?thesis by simp
  qed
  show ?thesis
    using dm len main by (simp add: stego)
qed

theorem embed_frame_property_witness:
  "\<exists>stego. embed_bits True toy_ext (solid 4 4 255) [False, True] ''k'' = Inr stego \<and>
      img_h stego = 4 \<and> img_w stego = 4 \<and> length (img_flat stego) = 48 \<and>
      drop_bit 1 (img_flat stego ! 45) = 127 \<and> drop_bit 2 (img_flat stego ! 45) = 63"
proof -
  have dm: "compute_edge_depth_map True (solid 4 4 255) = Inr (replicate 16 1)"
    by (simp add: depth_map_solid)
  have "length (np_repeat [False, True] REDUNDANCY) \<le> sum_list (replicate 16 1) * 3"
    by (simp add: length_np_repeat REDUNDANCY_def sum_list_replicate)
  from embed_bits_succeeds [OF shuffles_toy dm this]
  obtain stego where s: "embed_bits True toy_ext (solid 4 4 255) [False, True] ''k'' = Inr stego"
    by blast
  from embed_frame_property [OF s] dm
  have shape: "img_h stego = 4" "img_w stego = 4" "length (img_flat stego) = 48"
    and hi: "\<forall>idx < 16. \<forall>ch < 3.
           drop_bit (replicate 16 (1 :: nat) ! idx) (img_flat stego ! (3 * idx + ch))
             = drop_bit (replicate 16 (1 :: nat) ! idx) (img_flat (solid 4 4 255) ! (3 * idx + ch)) \<and>
           drop_bit 2 (img_flat stego ! (3 * idx + ch))
             = drop_bit 2 (img_flat (solid 4 4 255) ! (3 * idx + ch))"
    by (simp_all add: solid_sel)
  from hi have "drop_bit (replicate 16 (1 :: nat) ! 15) (img_flat stego ! (3 * 15 + 0))
             = drop_bit (replicate 16 (1 :: nat) ! 15) (img_flat (solid 4 4 255) ! (3 * 15 + 0)) \<and>
           drop_bit 2 (img_flat stego ! (3 * 15 + 0))
             = drop_bit 2 (img_flat (solid 4 4 255) ! (3 * 15 + 0))"
    by (intro hi [rule_format]) simp_all
  then have "drop_bit 1 (img_flat stego ! 45) = 127 \<and> drop_bit 2 (img_flat stego ! 45) = 63"
    by (simp add: solid_sel drop_bit_eq_div)
  with s shape show ?thesis by blast
qed

section \<open>Extraction engine: proofs\<close>

lemma length_load_chunk: "0 < tk \<Longrightarrow> tk \<le> 8 \<Longrightarrow> length (load_chunk x tk) = tk"
  by (simp add: load_chunk_def Let_def length_unpackbits)

lemma length_decode_redundancy: "length (decode_redundancy raw) = length raw div 3"
proof -
  have "(length raw - length raw mod 3) div 3 = length raw div 3"
    by (metis div_mult_mod_eq add_diff_cancel_right' nonzero_mult_div_cancel_right
          zero_neq_numeral mult.commute)
  then show ?thesis
    by (simp add: decode_redundancy_def reshape_rows_def REDUNDANCY_def Let_def min_def)
qed

lemma decode_redundancy_zero:
  assumes "length raw = 3 * n" "i < n" "\<forall>j. 3 * i \<le> j \<longrightarrow> j < length raw \<longrightarrow> \<not> raw ! j"
  shows "\<not> decode_redundancy raw ! i"
proof -
  have i: "i < length raw div 3" using assms(1,2) by simp
  have "\<not> x" if "x \<in> set (take 3 (drop (i * 3) raw))" for x
  proof -
    from that obtain k where k: "k < length (take 3 (drop (i * 3) raw))"
      and x: "x = take 3 (drop (i * 3) raw) ! k"
      by (auto simp: in_set_conv_nth)
    from k have "k < 3" "i * 3 + k < length raw" by auto
    then have "x = raw ! (i * 3 + k)" using x by simp
    moreover have "\<not> raw ! (i * 3 + k)"
      using assms(3) \<open>i * 3 + k < length raw\<close> by simp
    ultimately show ?thesis by simp
  qed
  then have "filter (\<lambda>b. b) (take 3 (drop (i * 3) raw)) = []"
    by (auto simp: filter_empty_conv)
  then show ?thesis
    using i assms(1)
    by (simp add: decode_redundancy_def reshape_rows_def REDUNDANCY_def Let_def)
qed

text \<open>
  What the engine returns: the decoding of a buffer of the requested length whose
  positions from \<open>cap\<close> on were never written.
\<close>

lemma extract_channels_inv:
  assumes "0 < depth" "depth \<le> 8" "b \<le> length raw"
    and "\<forall>i. b \<le> i \<longrightarrow> i < length raw \<longrightarrow> \<not> raw ! i"
    and "b + depth * length chs \<le> cap"
  shows "(\<exists>raw'. extract_channels flat depth idx chs raw b = Inr (Return (decode_redundancy raw')) \<and>
            length raw' = length raw \<and> (\<forall>i. cap \<le> i \<longrightarrow> i < length raw \<longrightarrow> \<not> raw' ! i)) \<or>
         (\<exists>raw' b'. extract_channels flat depth idx chs raw b = Inr (Continue (raw', b')) \<and>
            length raw' = length raw \<and> b' \<le> length raw \<and> b' \<le> b + depth * length chs \<and>
            (\<forall>i. b' \<le> i \<longrightarrow> i < length raw \<longrightarrow> \<not> raw' ! i))"
  using assms(3,4,5)
proof (induction chs arbitrary: raw b)
  case Nil
  then show ?case by simp
next
  case (Cons ch chs)
  show ?case
  proof (cases "length raw \<le> b")
    case True
    have "\<forall>i. cap \<le> i \<longrightarrow> i < length raw \<longrightarrow> \<not> raw ! i"
      using Cons.prems by auto
    with True show ?thesis by auto
  next
    case False
    define tk where "tk = min depth (length raw - b)"
    define bits where "bits = load_chunk (flat ! (3 * idx + ch)) tk"
    define raw1 where "raw1 = take b raw @ bits @ drop (b + tk) raw"
    have tk: "0 < tk" "tk \<le> 8" "tk \<le> depth" "b + tk \<le> length raw"
      using False assms(1,2) by (auto simp: tk_def)
    have lb: "length bits = tk"
      unfolding bits_def using tk(1,2) by (rule length_load_chunk)
    have step: "extract_channels flat depth idx (ch # chs) raw b
                  = extract_channels flat depth idx chs raw1 (b + tk)"
      using False lb by (simp add: tk_def [symmetric] bits_def [symmetric] raw1_def Let_def)
    have len1: "length raw1 = length raw"
      using tk(4) lb by (simp add: raw1_def)
    have z1: "\<forall>i. b + tk \<le> i \<longrightarrow> i < length raw1 \<longrightarrow> \<not> raw1 ! i"
    proof (intro allI impI)
      fix i assume i: "b + tk \<le> i" "i < length raw1"
      have lt: "length (take b raw) = b" using Cons.prems(1) by simp
      have na: "\<not> i < length (take b raw)" using i(1) lt by linarith
      have nb: "\<not> i - b < length bits" using i(1) lb by linarith
      have "raw1 ! i = (bits @ drop (b + tk) raw) ! (i - b)"
        unfolding raw1_def using na by (simp only: nth_append if_False lt)
      also have "\<dots> = drop (b + tk) raw ! (i - b - tk)"
        using nb by (simp only: nth_append if_False lb)
      also have "\<dots> = raw ! (b + tk + (i - b - tk))"
        using tk(4) by (intro nth_drop) simp
      also have "b + tk + (i - b - tk) = i"
        using i(1) by linarith
      finally have "raw1 ! i = raw ! i" .
      moreover have "\<not> raw ! i" using Cons.prems(2) i len1 by simp
      ultimately show "\<not> raw1 ! i" by simp
    qed
    have cap1: "b + tk + depth * length chs \<le> cap"
      using Cons.prems(3) tk(3) by simp
    have b1: "b + tk \<le> length raw1" using tk(4) len1 by simp
    from Cons.IH [OF b1 z1 cap1] show ?thesis
      unfolding step len1 using tk(3) by (auto simp: len1)
  qed
qed

lemma extract_loop_inv:
  assumes "\<forall>idx \<in> set order. idx < length dm" "\<forall>d \<in> set dm. 0 < d \<and> d \<le> 8"
    and "b \<le> length raw" "\<forall>i. b \<le> i \<longrightarrow> i < length raw \<longrightarrow> \<not> raw ! i"
    and "b + 3 * sum_list (map ((!) dm) order) \<le> cap"
  shows "\<exists>raw'. extract_loop dm flat order raw b = Inr (decode_redundancy raw') \<and>
           length raw' = length raw \<and> (\<forall>i. cap \<le> i \<longrightarrow> i < length raw \<longrightarrow> \<not> raw' ! i)"
  using assms(1,3,4,5)
proof (induction order arbitrary: raw b)
  case Nil
  then have "\<forall>i. cap \<le> i \<longrightarrow> i < length raw \<longrightarrow> \<not> raw ! i" by auto
  then show ?case by auto
next
  case (Cons idx order)
  from Cons.prems(1) have idx: "idx < length dm" and rest: "\<forall>i \<in> set order. i < length dm"
    by simp_all
  from assms(2) idx have d: "0 < dm ! idx" "dm ! idx \<le> 8"
    using nth_mem by blast+
  have cap0: "b + dm ! idx * length channels \<le> cap"
    using Cons.prems(4) by (simp add: channels_def)
  from extract_channels_inv [OF d Cons.prems(2,3) cap0, of flat idx]
  show ?case
  proof (elim disjE exE conjE)
    fix raw'
    assume "extract_channels flat (dm ! idx) idx channels raw b = Inr (Return (decode_redundancy raw'))"
      and "length raw' = length raw" "\<forall>i. cap \<le> i \<longrightarrow> i < length raw \<longrightarrow> \<not> raw' ! i"
    then show ?thesis using idx d(1) by (auto simp: Let_def)
  next
    fix raw' b'
    assume c: "extract_channels flat (dm ! idx) idx channels raw b = Inr (Continue (raw', b'))"
      and l: "length raw' = length raw" and b': "b' \<le> length raw"
      and le: "b' \<le> b + dm ! idx * length channels"
      and z: "\<forall>i. b' \<le> i \<longrightarrow> i < length raw \<longrightarrow> \<not> raw' ! i"
    have cap': "b' + 3 * sum_list (map ((!) dm) order) \<le> cap"
      using le Cons.prems(4) by (simp add: channels_def)
    from Cons.IH [OF rest, of b' raw'] b' z cap' l
    obtain raw'' where "extract_loop dm flat order raw' b' = Inr (decode_redundancy raw'')"
      "length raw'' = length raw" "\<forall>i. cap \<le> i \<longrightarrow> i < length raw \<longrightarrow> \<not> raw'' ! i"
      by auto
    then show ?thesis using c idx d(1) by (auto simp: Let_def)
  qed
qed

lemma sum_list_shuffled:
  fixes dm :: "nat list"
  assumes "mset order = mset [0..<length dm]"
  shows "sum_list (map ((!) dm) order) = sum_list dm"
proof -
  have "sum_list (map ((!) dm) order) = sum_mset (image_mset ((!) dm) (mset order))"
    by (simp add: sum_mset_sum_list [symmetric])
  also have "\<dots> = sum_mset (image_mset ((!) dm) (mset [0..<length dm]))"
    by (simp add: assms)
  also have "\<dots> = sum_list (map ((!) dm) [0..<length dm])"
    by (simp add: sum_mset_sum_list [symmetric])
  also have "\<dots> = sum_list dm"
    by (simp add: map_nth)
  finally show ?thesis .
qed

text \<open>
  Claim C10. For every RGB image, passphrase and bit count \<open>N\<close>, \<^verbatim>\<open>extract_bits\<close> returns
  \<open>N\<close> bits and raises nothing, whatever the capacity of the image. The raw positions
  past the capacity stay 0, so every decoded bit whose three copies lie past it is 0.
\<close>

theorem extract_total:
  assumes "wf_image arr" and "shuffles ext"
  shows "\<exists>bits dm. extract_bits True ext arr N p = Inr bits \<and> length bits = N \<and>
           compute_edge_depth_map True arr = Inr dm \<and>
           (\<forall>i < N. sum_list dm * 3 \<le> REDUNDANCY * i \<longrightarrow> \<not> bits ! i)"
proof -
  obtain dm where dm: "compute_edge_depth_map True arr = Inr dm"
    by (simp add: depth_map_Inr)
  define order where "order = rng_shuffle ext (seed_from_key ext p) [0..<img_h arr * img_w arr]"
  have len: "length dm = img_h arr * img_w arr"
    using dm by (rule depth_map_length)
  have in_range: "\<forall>idx \<in> set order. idx < length dm"
    using shuffles_order(1) [OF assms(2)] by (simp add: order_def len)
  have depths: "\<forall>d \<in> set dm. 0 < d \<and> d \<le> 8"
    using depth_map_values [OF dm] by fastforce
  have "mset order = mset [0..<length dm]"
    using assms(2) by (simp add: shuffles_def order_def len)
  then have cap: "0 + 3 * sum_list (map ((!) dm) order) \<le> sum_list dm * 3"
    by (simp add: sum_list_shuffled)
  have z: "\<forall>i. 0 \<le> i \<longrightarrow> i < length (replicate (N * REDUNDANCY) False) \<longrightarrow>
             \<not> replicate (N * REDUNDANCY) False ! i"
    by simp
  from extract_loop_inv [OF in_range depths _ z cap, of "img_flat arr"]
  obtain raw' where r: "extract_loop dm (img_flat arr) order (replicate (N * REDUNDANCY) False) 0
                          = Inr (decode_redundancy raw')"
    and l: "length raw' = N * 3"
    and zeros: "\<forall>i. sum_list dm * 3 \<le> i \<longrightarrow> i < N * 3 \<longrightarrow> \<not> raw' ! i"
    by (auto simp: REDUNDANCY_def)
  have res: "extract_bits True ext arr N p = Inr (decode_redundancy raw')"
    using dm r by (simp add: extract_bits_def order_def Let_def)
  have "\<not> decode_redundancy raw' ! i" if "i < N" "sum_list dm * 3 \<le> REDUNDANCY * i" for i
  proof (rule decode_redundancy_zero [of raw' N])
    show "length raw' = 3 * N" using l by simp
    show "i < N" by fact
    show "\<forall>j. 3 * i \<le> j \<longrightarrow> j < length raw' \<longrightarrow> \<not> raw' ! j"
      using zeros that(2) l by (auto simp: REDUNDANCY_def)
  qed
  then show ?thesis
    using res dm l by (auto simp: length_decode_redundancy)
qed

theorem extract_total_witness:
  "\<exists>bits. extract_bits True toy_ext (solid 4 4 255) 20 ''k'' = Inr bits \<and> length bits = 20 \<and>
      \<not> bits ! 16 \<and> \<not> bits ! 19"
proof -
  have wf: "wf_image (solid 4 4 255)" by (simp add: wf_solid)
  have dm: "compute_edge_depth_map True (solid 4 4 255) = Inr (replicate 16 1)"
    by (simp add: depth_map_solid)
  from extract_total [OF wf shuffles_toy, of 20 "''k''"] dm
  obtain bits where b: "extract_bits True toy_ext (solid 4 4 255) 20 ''k'' = Inr bits"
    "length bits = 20"
    and z: "\<forall>i < 20. sum_list (replicate 16 (1 :: nat)) * 3 \<le> REDUNDANCY * i \<longrightarrow> \<not> bits ! i"
    by auto
  from z have "\<not> bits ! 16" "\<not> bits ! 19"
    by (simp_all add: sum_list_replicate REDUNDANCY_def)
  with b show ?thesis by blast
qed

section \<open>Determinism, payload parsing and metrics: proofs\<close>

lemma int_from_bytes_big_bound: "int_from_bytes_big bs < 256 ^ length bs"
proof -
  have "foldl (\<lambda>acc b. 256 * acc + unat b) a bs < 256 ^ length bs * (a + 1)" for a
  proof (induction bs arbitrary: a)
    case Nil
    show ?case by simp
  next
    case (Cons b bs)
    have "unat b < 256" using unsigned_less [of b] by simp
    then have "256 * a + unat b + 1 \<le> 256 * (a + 1)" by simp
    then have le: "256 ^ length bs * (256 * a + unat b + 1) \<le> 256 ^ length bs * (256 * (a + 1))"
      by (rule mult_le_mono2)
    have "foldl (\<lambda>acc b. 256 * acc + unat b) (256 * a + unat b) bs
            < 256 ^ length bs * (256 * a + unat b + 1)"
      by (rule Cons.IH)
    also note le
    also have "256 ^ length bs * (256 * (a + 1)) = 256 ^ length (b # bs) * (a + 1)"
      by (simp add: algebra_simps)
    finally show ?case by simp
  qed
  from this [of 0] show ?thesis by (simp add: int_from_bytes_big_def)
qed

lemma seed_from_key_bound: "seed_from_key ext passphrase < 2 ^ 64"
proof -
  have "seed_from_key ext passphrase
          < 256 ^ length (take 8 (sha256 ext (utf8_encode passphrase)))"
    unfolding seed_from_key_def Let_def by (rule int_from_bytes_big_bound)
  also have "\<dots> \<le> (256 :: nat) ^ 8"
    by (intro power_increasing) simp_all
  finally show ?thesis by simp
qed

text \<open>
  Claim C3. The embedding is a function of the cover, the payload bits and the
  passphrase, and it depends on the passphrase only through the seed: the first eight
  bytes of its SHA-256 digest, read as a big-endian unsigned number below \<open>2 ^ 64\<close>. Two
  runs whose digests agree on these bytes return the same result, bit for bit.
\<close>

theorem embed_deterministic:
  assumes "take 8 (sha256 ext (utf8_encode p1)) = take 8 (sha256 ext (utf8_encode p2))"
  shows "embed_bits cv2 ext arr bits p1 = embed_bits cv2 ext arr bits p2 \<and>
         seed_from_key ext p1 = int_from_bytes_big (take 8 (sha256 ext (utf8_encode p1))) \<and>
         seed_from_key ext p1 = seed_from_key ext p2 \<and>
         seed_from_key ext p1 < 2 ^ 64"
proof -
  have s: "seed_from_key ext p1 = seed_from_key ext p2"
    using assms by (simp add: seed_from_key_def)
  have "embed_bits cv2 ext arr bits p1 = embed_bits cv2 ext arr bits p2"
    unfolding embed_bits_def s ..
  then show ?thesis
    using s seed_from_key_bound [of ext p1] by (simp add: seed_from_key_def)
qed

theorem embed_deterministic_witness:
  "take 8 (sha256 toy_ext (utf8_encode ''hunter2-a'')) = take 8 (sha256 toy_ext (utf8_encode ''hunter2-b'')) \<and>
   embed_bits True toy_ext (solid 4 4 255) [False, True] ''hunter2-a''
     = embed_bits True toy_ext (solid 4 4 255) [False, True] ''hunter2-b'' \<and>
   seed_from_key toy_ext ''hunter2-a'' = seed_from_key toy_ext ''hunter2-b''"
proof -
  have h: "take 8 (sha256 toy_ext (utf8_encode ''hunter2-a''))
             = take 8 (sha256 toy_ext (utf8_encode ''hunter2-b''))"
    by (simp add: toy_ext_def utf8_encode_def)
  from embed_deterministic [OF h, of True "solid 4 4 255" "[False, True]"] h
  show ?thesis by blast
qed

text \<open>
  Claim C7. \<^verbatim>\<open>parse_inner_payload\<close> fails with \<open>PayloadMalformed\<close> exactly when the payload
  has fewer than 34 bytes or the name would end past the payload. Otherwise the name is
  decoded with replacement, and the call fails with \<open>DecompressError\<close> exactly when the
  decompressor rejects the rest; when it accepts, the result is the stored hash, the
  name and the decompressed data.
\<close>

theorem parse_inner_errors:
  "((\<exists>e. parse_inner_payload ext p = Inl e \<and> PayloadMalformed e)
      \<longleftrightarrow> length p < 34 \<or> length p < 34 + name_len_of p) \<and>
   (\<not> (length p < 34 \<or> length p < 34 + name_len_of p) \<longrightarrow>
      (parse_inner_payload ext p = Inl DecompressError
         \<longleftrightarrow> zlib_decompress ext (drop (34 + name_len_of p) p) = None) \<and>
      (\<forall>data. zlib_decompress ext (drop (34 + name_len_of p) p) = Some data \<longrightarrow>
         parse_inner_payload ext p
           = Inr (take 32 p, utf8_decode_replace ext (take (name_len_of p) (drop 34 p)), data)))"
  by (auto simp: parse_inner_payload_def PayloadMalformed_def DecompressError_def Let_def
        split: option.splits)

theorem parse_inner_errors_witness:
  "parse_inner_payload toy_ext (replicate 32 7 @ [0, 1] @ [97] @ [120, 5])
     = Inr (replicate 32 7, [char_of (97 :: nat)], [5]) \<and>
   name_len_of (replicate 32 7 @ [0, 1] @ [97] @ [120, 5]) = 1 \<and>
   zlib_decompress toy_ext (drop 35 (replicate 32 7 @ [0, 1] @ [97] @ [120, 5])) = Some [5]"
proof -
  define p :: "u8 list" where "p = replicate 32 7 @ [0, 1] @ [97] @ [120, 5]"
  have len: "length p = 37" by (simp add: p_def)
  have n: "name_len_of p = 1"
    by (simp add: name_len_of_def p_def nth_append)
  have d: "drop (34 + name_len_of p) p = [120, 5]"
    unfolding n by (simp add: p_def)
  have z: "zlib_decompress toy_ext (drop (34 + name_len_of p) p) = Some [5]"
    unfolding d by (simp add: toy_ext_def)
  have nm: "utf8_decode_replace toy_ext (take (name_len_of p) (drop 34 p)) = [char_of (97 :: nat)]"
    unfolding n by (simp add: p_def toy_ext_def)
  have t: "take 32 p = replicate 32 7" by (simp add: p_def)
  from parse_inner_errors [of toy_ext p] len n z
  have "parse_inner_payload toy_ext p
          = Inr (take 32 p, utf8_decode_replace toy_ext (take (name_len_of p) (drop 34 p)), [5])"
    by simp
  then have r: "parse_inner_payload toy_ext p = Inr (replicate 32 7, [char_of (97 :: nat)], [5])"
    unfolding nm t .
  have z': "zlib_decompress toy_ext (drop 35 p) = Some [5]"
    using z unfolding n by simp
  show ?thesis
    unfolding p_def [symmetric] by (intro conjI r n z')
qed

lemma embed_bits_shape:
  "embed_bits cv2 ext arr bits p = Inr stego \<Longrightarrow>
   img_h stego = img_h arr \<and> img_w stego = img_w arr"
  by (auto simp: embed_bits_def Let_def split: sum.splits if_splits)

lemma compute_metrics_Inr:
  assumes "broadcastable a b"
  shows "\<exists>m. compute_metrics True a b u = Inr m"
  using assms by (simp add: compute_metrics_def Let_def depth_map_Inr)

lemma used_bytes_metrics:
  "compute_metrics cv2 a b u = Inr m \<Longrightarrow> used_bytes m = u div 8"
  by (auto simp: compute_metrics_def Let_def split: if_splits sum.splits)

text \<open>
  Claim C8. Every embedding reports \<open>used_bytes\<close> as the ceiling of \<open>used_bits / 8\<close>, where
  \<open>used_bits\<close> is the number of bits of the framed payload (before the redundancy
  expansion). The frame is a whole number of bytes, so the floor that
  \<^verbatim>\<open>compute_metrics\<close> takes is the ceiling, and both are the length of the frame.
\<close>

theorem used_bytes_ceiling:
  assumes "embed_payload cv2 ext arr payload key = Inr (stego, m)"
  shows "used_bytes m = \<lceil>real (length (bits_from_bytes payload)) / 8\<rceil> \<and>
         used_bytes m = int (length payload)"
proof -
  from assms have "compute_metrics cv2 arr stego (int (length (bits_from_bytes payload))) = Inr m"
    by (auto simp: embed_payload_def Let_def split: sum.splits)
  then have "used_bytes m = int (length (bits_from_bytes payload)) div 8"
    by (rule used_bytes_metrics)
  then have u: "used_bytes m = int (length payload)"
    by (simp add: length_bits_from_bytes)
  have "\<lceil>real (length (bits_from_bytes payload)) / 8\<rceil> = int (length payload)"
    by (simp add: length_bits_from_bytes)
  with u show ?thesis by simp
qed

theorem used_bytes_ceiling_witness:
  "\<exists>stego m. embed_payload True toy_ext (solid 4 4 255) [83, 84] ''k'' = Inr (stego, m) \<and>
      used_bytes m = 2 \<and> length (bits_from_bytes [83, 84]) = 16"
proof -
  have dm: "compute_edge_depth_map True (solid 4 4 255) = Inr (replicate 16 1)"
    by (simp add: depth_map_solid)
  have "length (np_repeat (bits_from_bytes [83, 84]) REDUNDANCY) \<le> sum_list (replicate 16 1) * 3"
    by (simp add: length_np_repeat length_bits_from_bytes REDUNDANCY_def sum_list_replicate)
  from embed_bits_succeeds [OF shuffles_toy dm this]
  obtain stego where
    s: "embed_bits True toy_ext (solid 4 4 255) (bits_from_bytes [83, 84]) ''k'' = Inr stego"
    by blast
  from embed_bits_shape [OF s] have "broadcastable (solid 4 4 255) stego"
    by (simp add: broadcastable_def)
  from compute_metrics_Inr [OF this]
  obtain m where
    m: "compute_metrics True (solid 4 4 255) stego (int (length (bits_from_bytes [83, 84]))) = Inr m"
    by blast
  have e: "embed_payload True toy_ext (solid 4 4 255) [83, 84] ''k'' = Inr (stego, m)"
    using s m by (simp add: embed_payload_def Let_def)
  from used_bytes_ceiling [OF e] have "used_bytes m = 2" by simp
  with e show ?thesis by (auto simp: length_bits_from_bytes)
qed

section \<open>Steganalysis scorer: proofs\<close>

lemma lsb_plane_solid:
  assumes "i < 3"
  shows "lsb_plane (solid h w v) i = replicate (h * w) (unat (v AND 1))"
proof (rule nth_equalityI)
  show "length (lsb_plane (solid h w v) i) = length (replicate (h * w) (unat (v AND 1)))"
    by (simp add: lsb_plane_def solid_sel)
next
  fix idx assume "idx < length (lsb_plane (solid h w v) i)"
  then have idx: "idx < h * w" by (simp add: lsb_plane_def solid_sel)
  then have "3 * idx + i < 3 * (h * w)" using assms by linarith
  then show "lsb_plane (solid h w v) i ! idx = replicate (h * w) (unat (v AND 1)) ! idx"
    using idx by (simp add: lsb_plane_def solid_sel)
qed

lemma np_corrcoef_constant: "np_corrcoef (replicate k c) ys = NaN"
proof (cases "k = 0")
  case True
  then show ?thesis by (simp add: np_corrcoef_def)
next
  case False
  then have mx: "sum_list (map real (replicate k c)) / real (length (replicate k c)) = real c"
    by (simp add: sum_list_replicate)
  have "map (\<lambda>x. real x - real c) (replicate k c) = replicate k 0"
    by simp
  then have "sum_list (map2 (*) (map (\<lambda>x. real x - real c) (replicate k c))
                             (map (\<lambda>x. real x - real c) (replicate k c))) = 0"
    by (simp add: zip_replicate sum_list_replicate)
  then show ?thesis
    unfolding np_corrcoef_def Let_def mx by simp
qed

lemma butlast_replicate_eq: "butlast (replicate k c) = replicate (k - 1) c"
  by (simp add: butlast_conv_take)

lemma detect_steg_solid:
  assumes "2 \<le> h * w"
  shows "detect_steg (solid h w v) = (NaN, ''Likely clean image'')"
proof -
  have l: "Suc 0 < length (lsb_plane (solid h w v) i)" if "i < 3" for i
    using assms by (simp add: lsb_plane_solid [OF that])
  have n: "np_corrcoef (butlast (lsb_plane (solid h w v) i)) (tl (lsb_plane (solid h w v) i)) = NaN"
    if "i < 3" for i
    by (simp add: lsb_plane_solid [OF that] butlast_replicate_eq np_corrcoef_constant)
  have i3: "0 < (3 :: nat)" "Suc 0 < 3" "2 < (3 :: nat)" by simp_all
  have "map (\<lambda>s. snd (snd s))
          (map (\<lambda>i. let lsb = lsb_plane (solid h w v) i;
                         counts = bincount2 lsb;
                         entropy = lsb_entropy counts;
                         chi = lsb_chi counts;
                         corr = (if 1 < length lsb then np_corrcoef (butlast lsb) (tl lsb)
                                 else Fin 0)
                     in (entropy, chi, corr)) [0..<3])
        = [NaN, NaN, NaN]"
    by (simp add: upt_3 Let_def l [OF i3(1)] l [OF i3(2)] l [OF i3(3)]
          n [OF i3(1)] n [OF i3(2)] n [OF i3(3)])
  then show ?thesis
    unfolding detect_steg_def Let_def by simp
qed

lemma detect_steg_label:
  "snd (detect_steg arr) = ''Likely contains hidden data''
     \<longleftrightarrow> (\<exists>s. fst (detect_steg arr) = Fin s \<and> 62 / 100 \<le> s)"
  by (auto simp: detect_steg_def Let_def split: float.splits)

text \<open>
  Claim C9 says that the score of every image, uniform ones included, lies in \<open>[0, 1]\<close>.
  On a uniform image the LSB plane of every channel is constant, the correlation
  coefficient of a constant sequence is \<open>0 / 0\<close>, and the score is NaN: it is no number
  of the interval. The label follows the comparison \<open>score \<ge> 0.62\<close>, which is false for
  NaN.
\<close>

theorem detect_steg_solid_nan:
  "detect_steg (solid 4 4 255) = (NaN, ''Likely clean image'') \<and>
   \<not> in_unit_interval (fst (detect_steg (solid 4 4 255)))"
  using detect_steg_solid [of 4 4 255] by (simp add: in_unit_interval_def)

section \<open>Round trip: what embedding does to the depth map\<close>

lemma embed_loop_done:
  "length enc \<le> b \<Longrightarrow> \<forall>idx \<in> set order. idx < length dm \<Longrightarrow>
   embed_loop dm enc order flat b = Inr flat"
  by (induction order) (simp_all add: channels_def Let_def)

lemma extract_loop_done:
  "length raw \<le> b \<Longrightarrow> \<forall>idx \<in> set order. idx < length dm \<Longrightarrow>
   extract_loop dm flat order raw b = Inr (decode_redundancy raw)"
  by (induction order) (simp_all add: channels_def Let_def)

lemma take_1_drop: "k < length xs \<Longrightarrow> take 1 (drop k xs) = [xs ! k]"
  by (simp add: take_Suc_conv_app_nth)

lemma embed_channels_depth1:
  assumes "b + 3 \<le> length enc"
  shows "embed_channels enc 1 idx channels flat b =
           Continue (flat[3 * idx := store_chunk (flat ! (3 * idx)) 1 [enc ! b],
                          3 * idx + 1 := store_chunk (flat ! (3 * idx + 1)) 1 [enc ! (b + 1)],
                          3 * idx + 2 := store_chunk (flat ! (3 * idx + 2)) 1 [enc ! (b + 2)]],
                     b + 3)"
proof -
  have k: "take 1 (drop b enc) = [enc ! b]" "take 1 (drop (b + 1) enc) = [enc ! (b + 1)]"
    "take 1 (drop (b + 2) enc) = [enc ! (b + 2)]"
    using assms by - (rule take_1_drop, linarith)+
  have m: "min 1 (length enc - b) = 1" "min 1 (length enc - (b + 1)) = 1"
    "min 1 (length enc - (b + 2)) = 1"
    using assms by simp_all
  have n: "\<not> length enc \<le> b" "\<not> length enc \<le> b + 1" "\<not> length enc \<le> b + 2"
    using assms by simp_all
  have s1: "embed_channels enc 1 idx [0, 1, 2] flat b
          = embed_channels enc 1 idx [1, 2]
              (flat[3 * idx := store_chunk (flat ! (3 * idx)) 1 [enc ! b]]) (b + 1)"
    using n(1) by (simp only: embed_channels.simps Let_def m k if_False add_0_right)
  show ?thesis
    unfolding channels_def s1
    using n(2,3)
    by (simp only: embed_channels.simps Let_def m k if_False add.assoc one_add_one
          nth_list_update_neq) simp
qed

lemma store_chunk_255:
  "store_chunk 255 (Suc 0) [False] = 254" "store_chunk 255 (Suc 0) [True] = 255"
  by (simp_all add: store_chunk_def pack_chunk_def)

lemma load_chunk_254: "load_chunk 254 2 = [True, False]"
  by (simp add: load_chunk_def unpackbits_u8_def)

lemma load_chunk_254_Suc: "load_chunk 254 (Suc (Suc 0)) = [True, False]"
  using load_chunk_254 by (simp only: numeral_2_eq_2)

lemma np_repeat_01: "np_repeat [False, True] REDUNDANCY = [False, False, False, True, True, True]"
  by (simp add: np_repeat_def REDUNDANCY_def numeral_3_eq_3)

lemma shuffled_head:
  assumes "shuffles ext" "2 \<le> n"
  shows "\<exists>p q rest. rng_shuffle ext seed [0..<n] = p # q # rest \<and> p < n \<and> q < n \<and> p \<noteq> q \<and>
           (\<forall>i \<in> set rest. i < n)"
proof -
  let ?o = "rng_shuffle ext seed [0..<n]"
  have "length ?o = n" using shuffles_order(3) [OF assms(1)] .
  with assms(2) obtain p q rest where o: "?o = p # q # rest"
    by (cases ?o; cases "tl ?o") auto
  have "set ?o = {..<n}" using shuffles_order(1) [OF assms(1)] .
  then have "p < n" "q < n" "\<forall>i \<in> set rest. i < n"
    unfolding o by auto
  moreover have "distinct ?o" using shuffles_order(2) [OF assms(1)] .
  then have "p \<noteq> q" unfolding o by auto
  ultimately show ?thesis using o by blast
qed

text \<open>
  Embedding the two bits 0, 1 into a white cover: the first pixel of the traversal takes
  the three copies of the bit 0 and becomes \<open>(254, 254, 254)\<close>, the second one takes the
  copies of the bit 1 and stays white.
\<close>

lemma embed_loop_white:
  assumes "p < n" "q < n" "p \<noteq> q" "\<forall>i \<in> set rest. i < n"
  shows "embed_loop (replicate n 1) [False, False, False, True, True, True] (p # q # rest)
           (replicate (3 * n) 255) 0
         = Inr ((replicate (3 * n) 255)[3 * p := 254, 3 * p + 1 := 254, 3 * p + 2 := 254])"
proof -
  let ?enc = "[False, False, False, True, True, True]"
  let ?flat = "replicate (3 * n) (255 :: u8)"
  let ?F = "?flat[3 * p := 254, 3 * p + 1 := 254, 3 * p + 2 := 254]"
  have p3: "3 * p < 3 * n" "3 * p + 1 < 3 * n" "3 * p + 2 < 3 * n"
    using assms(1) by simp_all
  have q3: "3 * q < 3 * n" "3 * q + 1 < 3 * n" "3 * q + 2 < 3 * n"
    using assms(2) by simp_all
  have "embed_channels ?enc 1 p channels ?flat 0 =
          Continue (?flat[3 * p := store_chunk (?flat ! (3 * p)) 1 [?enc ! 0],
                          3 * p + 1 := store_chunk (?flat ! (3 * p + 1)) 1 [?enc ! (0 + 1)],
                          3 * p + 2 := store_chunk (?flat ! (3 * p + 2)) 1 [?enc ! (0 + 2)]],
                     0 + 3)"
    by (rule embed_channels_depth1) simp
  also have "\<dots> = Continue (?F, 3)"
    using p3 by (simp add: store_chunk_255)
  finally have c1: "embed_channels ?enc 1 p channels ?flat 0 = Continue (?F, 3)" .
  have Fq: "?F ! (3 * q) = 255" "?F ! (3 * q + 1) = 255" "?F ! (3 * q + 2) = 255"
    using assms(3) q3 by (simp_all add: nth_list_update)
  have "embed_channels ?enc 1 q channels ?F 3 =
          Continue (?F[3 * q := store_chunk (?F ! (3 * q)) 1 [?enc ! 3],
                       3 * q + 1 := store_chunk (?F ! (3 * q + 1)) 1 [?enc ! (3 + 1)],
                       3 * q + 2 := store_chunk (?F ! (3 * q + 2)) 1 [?enc ! (3 + 2)]],
                     3 + 3)"
    by (rule embed_channels_depth1) simp
  also have "\<dots> = Continue (?F[3 * q := 255, 3 * q + 1 := 255, 3 * q + 2 := 255], 6)"
    unfolding Fq by (simp add: store_chunk_255)
  also have "?F[3 * q := 255, 3 * q + 1 := 255, 3 * q + 2 := 255] = ?F"
    using Fq by (metis list_update_id)
  finally have c2: "embed_channels ?enc 1 q channels ?F 3 = Continue (?F, 6)" .
  have rest: "\<forall>idx \<in> set rest. idx < length (replicate n (1 :: nat))"
    using assms(4) by simp
  have fin: "embed_loop (replicate n 1) ?enc rest ?F 6 = Inr ?F"
    using rest by (intro embed_loop_done) simp
  show ?thesis
    using assms(1,2) c1 c2 fin by (simp add: Let_def del: embed_channels.simps)
qed

text \<open>The stego image of this embedding is no longer uniform: its depth at the pixel is 2.\<close>

lemma cvtColor_one_dark:
  assumes "p < h * w"
  shows "cvtColor_RGB2GRAY
           \<lparr>img_h = h, img_w = w,
              img_flat = (replicate (3 * (h * w)) 255)[3 * p := 254, 3 * p + 1 := 254, 3 * p + 2 := 254]\<rparr>
         = (replicate (h * w) 255)[p := 254]"
proof (rule nth_equalityI)
  let ?F = "(replicate (3 * (h * w)) (255 :: u8))[3 * p := 254, 3 * p + 1 := 254, 3 * p + 2 := 254]"
  let ?S = "\<lparr>img_h = h, img_w = w, img_flat = ?F\<rparr>"
  show "length (cvtColor_RGB2GRAY ?S) = length ((replicate (h * w) (255 :: u8))[p := 254])"
    by (simp add: length_cvtColor)
  fix i assume "i < length (cvtColor_RGB2GRAY ?S)"
  then have i: "i < h * w" by (simp add: length_cvtColor)
  then have i3: "3 * i < 3 * (h * w)" "3 * i + 1 < 3 * (h * w)" "3 * i + 2 < 3 * (h * w)"
    by simp_all
  have g: "cvtColor_RGB2GRAY ?S ! i = gray_of (?F ! (3 * i)) (?F ! (3 * i + 1)) (?F ! (3 * i + 2))"
    using i by (simp add: nth_cvtColor)
  show "cvtColor_RGB2GRAY ?S ! i = (replicate (h * w) 255)[p := 254] ! i"
  proof (cases "i = p")
    case True
    have "?F ! (3 * p) = 254" "?F ! (3 * p + 1) = 254" "?F ! (3 * p + 2) = 254"
      using i3 True by (simp_all add: nth_list_update)
    then show ?thesis
      using g i True by (simp add: gray_of_same)
  next
    case False
    then have ne: "3 * i + c \<noteq> 3 * p + d" if "c < 3" "d < 3" for c d
      using that by presburger
    have "?F ! (3 * i) = 255" "?F ! (3 * i + 1) = 255" "?F ! (3 * i + 2) = 255"
      using i3 ne [of 0 0] ne [of 0 1] ne [of 0 2] ne [of 1 0] ne [of 1 1] ne [of 1 2]
        ne [of 2 0] ne [of 2 1] ne [of 2 2]
      by (simp_all add: nth_list_update)
    then show ?thesis
      using g i False by (simp add: gray_of_same)
  qed
qed

lemma reflect101_self: "y < n \<Longrightarrow> reflect101 n (int y) = y"
  by (auto simp: reflect101_def)

lemma reflect101_neighbour:
  assumes "2 \<le> n" "y < n"
  shows "reflect101 n (int y - 1) < n" "reflect101 n (int y - 1) \<noteq> y"
    "reflect101 n (int y + 1) < n" "reflect101 n (int y + 1) \<noteq> y"
  using assms by (auto simp: reflect101_def)

lemma pixel_index_inject:
  fixes r c w :: nat
  assumes "c < w" "c' < w" "r * w + c = r' * w + c'"
  shows "r = r' \<and> c = c'"
proof -
  have "(r * w + c) div w = r" "(r * w + c) mod w = c" using assms(1) by simp_all
  moreover have "(r' * w + c') div w = r'" "(r' * w + c') mod w = c'" using assms(2) by simp_all
  ultimately show ?thesis using assms(3) by metis
qed

lemma dark_gray_values:
  assumes "j < n"
  shows "unat ((replicate n (255 :: u8))[p := 254] ! j) = (if j = p then 254 else 255)"
  using assms by (simp add: nth_list_update)

lemma Laplacian_bounded:
  assumes "idx < h * w"
  shows "\<bar>Laplacian h w ((replicate (h * w) 255)[p := 254]) ! idx\<bar> \<le> 4"
proof -
  let ?G = "(replicate (h * w) (255 :: u8))[p := 254]"
  define a where "a = int (unat (?G !
    (reflect101 h (int (idx div w) - 1) * w + reflect101 w (int (idx mod w)))))"
  define b where "b = int (unat (?G !
    (reflect101 h (int (idx div w) + 1) * w + reflect101 w (int (idx mod w)))))"
  define c where "c = int (unat (?G !
    (reflect101 h (int (idx div w)) * w + reflect101 w (int (idx mod w) - 1))))"
  define d where "d = int (unat (?G !
    (reflect101 h (int (idx div w)) * w + reflect101 w (int (idx mod w) + 1))))"
  define e where "e = int (unat (?G !
    (reflect101 h (int (idx div w)) * w + reflect101 w (int (idx mod w)))))"
  have v: "254 \<le> int (unat (?G ! j)) \<and> int (unat (?G ! j)) \<le> 255" if "j < h * w" for j
    using dark_gray_values [OF that, of p] by simp
  have "254 \<le> a \<and> a \<le> 255"
    unfolding a_def using neighbour_index_less [OF assms, of "- 1" 0] by (intro v) simp
  moreover have "254 \<le> b \<and> b \<le> 255"
    unfolding b_def using neighbour_index_less [OF assms, of 1 0] by (intro v) simp
  moreover have "254 \<le> c \<and> c \<le> 255"
    unfolding c_def using neighbour_index_less [OF assms, of 0 "- 1"] by (intro v) simp
  moreover have "254 \<le> d \<and> d \<le> 255"
    unfolding d_def using neighbour_index_less [OF assms, of 0 1] by (intro v) simp
  moreover have "254 \<le> e \<and> e \<le> 255"
    unfolding e_def using neighbour_index_less [OF assms, of 0 0] by (intro v) simp
  ultimately have "\<bar>a + b + c + d - 4 * e\<bar> \<le> 4" by linarith
  then have "\<bar>real_of_int (a + b + c + d - 4 * e)\<bar> \<le> 4"
    by (metis of_int_abs of_int_le_iff of_int_numeral)
  then show ?thesis
    unfolding nth_Laplacian [OF assms] a_def b_def c_def d_def e_def .
qed

lemma Laplacian_at_dark:
  assumes "2 \<le> h" "2 \<le> w" "p < h * w"
  shows "Laplacian h w ((replicate (h * w) 255)[p := 254]) ! p = 4"
proof -
  let ?G = "(replicate (h * w) (255 :: u8))[p := 254]"
  define y where "y = p div w"
  define x where "x = p mod w"
  have w: "0 < w" using assms(2) by simp
  have y: "y < h" unfolding y_def using assms(3) w by (simp add: less_mult_imp_div_less)
  have x: "x < w" unfolding x_def using w by simp
  have p: "y * w + x = p" by (simp add: y_def x_def)
  have centre: "reflect101 h (int y) * w + reflect101 w (int x) = p"
    using y x p by (simp add: reflect101_self)
  have white: "int (unat (?G ! (r * w + c))) = 255"
    if "r < h" "c < w" "r \<noteq> y \<or> c \<noteq> x" for r c
  proof -
    have "r * w + c < h * w" using that(1,2) by (rule pixel_index_less)
    moreover have "r * w + c \<noteq> p"
      using pixel_index_inject [OF that(2) x, of r y] that(3) p by auto
    ultimately show ?thesis by (simp add: dark_gray_values)
  qed
  have up: "int (unat (?G ! (reflect101 h (int y - 1) * w + reflect101 w (int x)))) = 255"
    using reflect101_neighbour(1,2) [OF assms(1) y] x by (intro white) (simp_all add: reflect101_self)
  have down: "int (unat (?G ! (reflect101 h (int y + 1) * w + reflect101 w (int x)))) = 255"
    using reflect101_neighbour(3,4) [OF assms(1) y] x by (intro white) (simp_all add: reflect101_self)
  have left: "int (unat (?G ! (reflect101 h (int y) * w + reflect101 w (int x - 1)))) = 255"
    using reflect101_neighbour(1,2) [OF assms(2) x] y by (intro white) (simp_all add: reflect101_self)
  have right: "int (unat (?G ! (reflect101 h (int y) * w + reflect101 w (int x + 1)))) = 255"
    using reflect101_neighbour(3,4) [OF assms(2) x] y by (intro white) (simp_all add: reflect101_self)
  have mid: "int (unat (?G ! (reflect101 h (int y) * w + reflect101 w (int x)))) = 254"
    unfolding centre using assms(3) by (simp add: dark_gray_values)
  have "real_of_int (255 + 255 + 255 + 255 - 4 * 254) = 4" by simp
  then show ?thesis
    unfolding nth_Laplacian [OF assms(3)] y_def [symmetric] x_def [symmetric]
      up down left right mid .
qed

lemma depth_one_dark:
  assumes "2 \<le> h" "2 \<le> w" "p < h * w"
  shows "\<exists>dm. compute_edge_depth_map True
           \<lparr>img_h = h, img_w = w,
              img_flat = (replicate (3 * (h * w)) 255)[3 * p := 254, 3 * p + 1 := 254, 3 * p + 2 := 254]\<rparr>
           = Inr dm \<and> length dm = h * w \<and> dm ! p = 2 \<and> (\<forall>d \<in> set dm. d = 1 \<or> d = 2)"
proof -
  let ?S = "\<lparr>img_h = h, img_w = w,
              img_flat = (replicate (3 * (h * w)) (255 :: u8))[3 * p := 254, 3 * p + 1 := 254, 3 * p + 2 := 254]\<rparr>"
  let ?L = "Laplacian h w ((replicate (h * w) 255)[p := 254])"
  let ?mag = "map abs ?L"
  have len: "length ?mag = h * w" by (simp add: length_Laplacian)
  have magp: "?mag ! p = 4"
    using assms(3) Laplacian_at_dark [OF assms] by (simp add: length_Laplacian)
  have "4 \<in> set ?mag"
    using magp len assms(3) by (metis nth_mem)
  moreover have "m \<le> 4" if "m \<in> set ?mag" for m
  proof -
    from that obtain i where "i < h * w" "m = \<bar>?L ! i\<bar>"
      by (auto simp: in_set_conv_nth length_Laplacian)
    then show ?thesis using Laplacian_bounded [of i h w p] by simp
  qed
  ultimately have mx: "Max (set ?mag) = 4"
    by (intro Max_eqI) auto
  have ne: "?mag \<noteq> []" using len assms(3) by auto
  have norm: "edge_norm ?S = map (\<lambda>m. m / (4 + 1 / 1000000)) ?mag"
    unfolding edge_norm_def Let_def cvtColor_one_dark [OF assms(3)]
    using ne mx by simp
  have "edge_norm ?S ! p = 4 / (4 + 1 / 1000000)"
    unfolding norm using magp len assms(3) by (simp del: list.map_comp map_map)
  then have "1 / 4 < edge_norm ?S ! p" by simp
  then have "map (\<lambda>n. if 1 / 4 < n then 2 else 1) (edge_norm ?S) ! p = (2 :: nat)"
    using assms(3) by (simp add: length_edge_norm)
  moreover have "length (map (\<lambda>n. if 1 / 4 < n then 2 else (1 :: nat)) (edge_norm ?S)) = h * w"
    by (simp add: length_edge_norm)
  ultimately show ?thesis
    using depth_map_values [OF depth_map_Inr [of ?S]]
    by (intro exI [of _ "map (\<lambda>n. if 1 / 4 < n then 2 else 1) (edge_norm ?S)"] conjI
          depth_map_Inr) auto
qed

text \<open>
  Extraction from that stego image reads two bits per channel at the first pixel, the
  bits 1, 0 of the value 254, and fills the whole raw buffer there.
\<close>

lemma extract_channels_dark:
  assumes "flat ! (3 * idx) = 254" "flat ! (3 * idx + 1) = 254" "flat ! (3 * idx + 2) = 254"
  shows "extract_channels flat 2 idx channels [False, False, False, False, False, False] 0
         = Inr (Continue ([True, False, True, False, True, False], 6))"
  using assms by (simp add: channels_def Let_def load_chunk_254_Suc)

lemma decode_101010: "decode_redundancy [True, False, True, False, True, False] = [True, False]"
  by (simp add: decode_redundancy_Cons3 decode_redundancy_Nil)

lemma extract_loop_dark:
  assumes "p < length dm" "q < length dm" "dm ! p = 2" "0 < dm ! q"
    and "flat ! (3 * p) = 254" "flat ! (3 * p + 1) = 254" "flat ! (3 * p + 2) = 254"
  shows "extract_loop dm flat (p # q # rest) [False, False, False, False, False, False] 0
         = Inr [True, False]"
proof -
  have c1: "extract_channels flat (dm ! p) p channels [False, False, False, False, False, False] 0
              = Inr (Continue ([True, False, True, False, True, False], 6))"
    unfolding assms(3) using assms(5,6,7) by (rule extract_channels_dark)
  have c2: "extract_channels flat (dm ! q) q channels [True, False, True, False, True, False] 6
              = Inr (Return [True, False])"
    by (simp add: channels_def decode_101010)
  show ?thesis
    using assms(1,2,3,4) c1 c2 by (simp add: Let_def del: extract_channels.simps)
qed

text \<open>
  Claim C1 says that extraction returns the embedded payload for every cover of at least
  16 pixels, because the depth map of the stego image equals the one of the cover. The
  depth map is computed from all eight bits of the samples, the embedded ones included:
  on a white cover of at least 2 by 2 pixels the bits 0, 1 are embedded and 1, 0 are
  extracted, whatever the passphrase and the shuffle.
\<close>

theorem roundtrip_fails_on_white_cover:
  assumes "shuffles ext" "2 \<le> h" "2 \<le> w"
  shows "\<exists>stego. embed_bits True ext (solid h w 255) [False, True] pw = Inr stego \<and>
           extract_bits True ext stego 2 pw = Inr [True, False] \<and>
           compute_edge_depth_map True stego \<noteq> compute_edge_depth_map True (solid h w 255)"
proof -
  have n4: "4 \<le> h * w" using mult_le_mono [OF assms(2,3)] by simp
  then have n2: "2 \<le> h * w" by simp
  from shuffled_head [OF assms(1) n2, of "seed_from_key ext pw"]
  obtain p q rest where order: "rng_shuffle ext (seed_from_key ext pw) [0..<h * w] = p # q # rest"
    and p: "p < h * w" and q: "q < h * w" and pq: "p \<noteq> q"
    and rest: "\<forall>i \<in> set rest. i < h * w"
    by blast
  let ?F = "(replicate (3 * (h * w)) (255 :: u8))[3 * p := 254, 3 * p + 1 := 254, 3 * p + 2 := 254]"
  let ?S = "\<lparr>img_h = h, img_w = w, img_flat = ?F\<rparr>"
  have cap: "\<not> sum_list (replicate (h * w) (1 :: nat)) * 3
               < length [False, False, False, True, True, True]"
    using n4 by (simp add: sum_list_replicate)
  have emb: "embed_bits True ext (solid h w 255) [False, True] pw = Inr ?S"
    unfolding embed_bits_def Let_def depth_map_solid np_repeat_01 solid_sel order
    using cap embed_loop_white [OF p q pq rest] by (simp add: solid_def)
  from depth_one_dark [OF assms(2,3) p]
  obtain dm where dm: "compute_edge_depth_map True ?S = Inr dm" and len: "length dm = h * w"
    and dp: "dm ! p = 2" and vals: "\<forall>d \<in> set dm. d = 1 \<or> d = 2"
    by blast
  have dq: "0 < dm ! q"
    using vals q len nth_mem [of q dm] by fastforce
  have Fp: "?F ! (3 * p) = 254" "?F ! (3 * p + 1) = 254" "?F ! (3 * p + 2) = 254"
    using p by (simp_all add: nth_list_update)
  have raw: "replicate (2 * REDUNDANCY) False = [False, False, False, False, False, False]"
    by (simp add: REDUNDANCY_def numeral_eq_Suc)
  have ext: "extract_bits True ext ?S 2 pw = Inr [True, False]"
    unfolding extract_bits_def Let_def dm raw
    using extract_loop_dark [of p dm q ?F rest] p q len dp dq Fp by (simp add: order)
  have "dm \<noteq> replicate (h * w) 1"
    using dp p by (metis nth_replicate numeral_eq_one_iff semiring_norm(85))
  then have "compute_edge_depth_map True ?S \<noteq> compute_edge_depth_map True (solid h w 255)"
    unfolding dm depth_map_solid by simp
  with emb ext show ?thesis by blast
qed

theorem roundtrip_fails_instance:
  "\<exists>stego. embed_bits True toy_ext (solid 4 4 255) [False, True] ''k'' = Inr stego \<and>
      extract_bits True toy_ext stego 2 ''k'' = Inr [True, False] \<and>
      [True, False] \<noteq> [False, True]"
proof -
  have "(2 :: nat) \<le> 4" by simp
  from roundtrip_fails_on_white_cover [OF shuffles_toy this this, of "''k''"]
  show ?thesis by auto
qed

section \<open>Round trip: what holds when the depth map is kept\<close>

lemma pack_chunk_snoc:
  "pack_chunk (c @ [b]) = push_bit 1 (pack_chunk c) OR (if b then 1 else 0)"
  by (simp add: pack_chunk_def)

lemma bit_pack_chunk:
  "i < length c \<Longrightarrow> bit (pack_chunk c) i = c ! (length c - 1 - i)"
proof (induction c arbitrary: i rule: rev_induct)
  case Nil
  then show ?case by simp
next
  case (snoc b c)
  show ?case
  proof (cases i)
    case 0
    then show ?thesis
      by (simp add: pack_chunk_snoc bit_or_iff bit_push_bit_iff bit_0 even_or_iff)
  next
    case (Suc k)
    with snoc.prems have k: "k < length c" by simp
    have h: "bit (a * 2) (Suc k) = bit a k" for a :: int
      by (simp add: bit_Suc)
    have "bit (pack_chunk (c @ [b])) (Suc k) = bit (pack_chunk c) k"
      by (simp add: pack_chunk_snoc bit_or_iff h bit_1_iff)
    also have "\<dots> = c ! (length c - 1 - k)" using k by (rule snoc.IH)
    also have "\<dots> = (c @ [b]) ! (length (c @ [b]) - 1 - Suc k)"
    proof -
      have idx: "length (c @ [b]) - 1 - Suc k = length c - 1 - k" by simp
      have lt: "length c - 1 - k < length c" using k by linarith
      show ?thesis by (simp only: idx nth_append lt if_True)
    qed
    finally show ?thesis using Suc by simp
  qed
qed

lemma bit_store_chunk:
  assumes "i < tk" "tk \<le> 8" "length c = tk"
  shows "bit (store_chunk x tk c) i = c ! (tk - 1 - i)"
proof -
  have "bit (push_bit tk 1 - 1 :: int) i"
    unfolding chunk_mask using assms(1) by (simp add: bit_mask_iff)
  then have "bit (store_chunk x tk c) i = bit (pack_chunk c) i"
    unfolding store_chunk_def Let_def using assms(1,2)
    by (auto simp: bit_word_of_int_iff bit_or_iff bit_and_iff bit_not_iff)
  then show ?thesis
    using bit_pack_chunk [of i c] assms(1,3) by simp
qed

lemma load_chunk_bits:
  assumes "0 < tk" "tk \<le> 8"
  shows "load_chunk y tk = map (\<lambda>i. bit y (tk - 1 - i)) [0..<tk]"
proof -
  define z :: u8 where "z = word_of_int (uint y AND (push_bit tk 1 - 1))"
  have b: "bit z i = bit y i" if "i < tk" for i
    unfolding z_def chunk_mask using that assms(2)
    by (auto simp: bit_word_of_int_iff bit_and_iff bit_mask_iff bit_uint_iff)
  from assms have "tk \<in> {1, 2, 3, 4, 5, 6, 7, 8}" by auto
  then have shape: "drop (8 - tk) (map (bit z) [7, 6, 5, 4, 3, 2, 1, 0])
                      = map (\<lambda>i. bit z (tk - 1 - i)) [0..<tk]"
    by (elim insertE emptyE) (simp_all add: upt_rec [of _ "Suc _"] numeral_eq_Suc)
  have "load_chunk y tk = drop (8 - tk) (map (bit z) [7, 6, 5, 4, 3, 2, 1, 0])"
    using assms(1) by (simp add: load_chunk_def Let_def unpackbits_u8_def z_def)
  also note shape
  also have "map (\<lambda>i. bit z (tk - 1 - i)) [0..<tk] = map (\<lambda>i. bit y (tk - 1 - i)) [0..<tk]"
    using assms(1) by (intro map_cong refl b) auto
  finally show ?thesis .
qed

lemma load_store_chunk:
  assumes "0 < tk" "tk \<le> 8" "length c = tk"
  shows "load_chunk (store_chunk x tk c) tk = c"
proof -
  have "map (\<lambda>i. bit (store_chunk x tk c) (tk - 1 - i)) [0..<tk] = map (\<lambda>i. c ! i) [0..<tk]"
  proof (intro map_cong refl)
    fix i assume "i \<in> set [0..<tk]"
    then have i: "i < tk" by simp
    then have "tk - 1 - i < tk" by simp
    from bit_store_chunk [OF this assms(2,3), of x]
    show "bit (store_chunk x tk c) (tk - 1 - i) = c ! i"
      using i by simp
  qed
  also have "\<dots> = c" using map_nth [of c] assms(3) by simp
  finally show ?thesis
    using load_chunk_bits [OF assms(1,2)] by simp
qed

lemma embed_channels_untouched:
  "j \<notin> (\<lambda>ch. 3 * idx + ch) ` set chs \<Longrightarrow>
   flow_flat (embed_channels enc d idx chs flat b) ! j = flat ! j"
proof (induction chs arbitrary: flat b)
  case Nil
  show ?case by (simp add: flow_flat_def)
next
  case (Cons ch chs)
  then have j: "j \<noteq> 3 * idx + ch" and rest: "j \<notin> (\<lambda>ch. 3 * idx + ch) ` set chs"
    by auto
  show ?case
  proof (cases "length enc \<le> b")
    case True
    then show ?thesis by (simp add: flow_flat_def)
  next
    case False
    then show ?thesis
      using Cons.IH [OF rest] j by (simp add: Let_def)
  qed
qed

lemma embed_loop_untouched:
  "embed_loop dm enc os flat b = Inr F \<Longrightarrow> j div 3 \<notin> set os \<Longrightarrow> F ! j = flat ! j"
proof (induction os arbitrary: flat b)
  case Nil
  then show ?case by simp
next
  case (Cons idx os)
  from Cons.prems(1) have idx: "idx < length dm" by (simp split: if_splits)
  from Cons.prems(2) have ne: "j div 3 \<noteq> idx" and rest: "j div 3 \<notin> set os" by auto
  define r where "r = embed_channels enc (dm ! idx) idx channels flat b"
  have keep: "flow_flat r ! j = flat ! j"
    using embed_channels_frame [of channels enc "dm ! idx" idx flat b] ne
    by (simp add: r_def channels_def del: embed_channels.simps)
  show ?case
  proof (cases "dm ! idx \<le> 0")
    case True
    with Cons.prems(1) idx have "embed_loop dm enc os flat b = Inr F" by simp
    from Cons.IH [OF this rest] show ?thesis .
  next
    case False
    show ?thesis
    proof (cases r)
      case (Return f)
      with Cons.prems(1) idx False have "F = f"
        by (simp add: r_def [symmetric] Let_def del: embed_channels.simps)
      then show ?thesis using keep Return by (simp add: flow_flat_def)
    next
      case (Continue s)
      obtain f b' where s: "s = (f, b')" by (cases s)
      with Continue Cons.prems(1) idx False have "embed_loop dm enc os f b' = Inr F"
        by (simp add: r_def [symmetric] Let_def del: embed_channels.simps)
      from Cons.IH [OF this rest] show ?thesis
        using keep Continue s by (simp add: flow_flat_def)
    qed
  qed
qed

lemma channels_lockstep:
  assumes "0 < d" "d \<le> 8" "length raw = length enc" "b \<le> length enc"
    and "take b raw = take b enc" "distinct chs" "\<forall>ch \<in> set chs. ch < 3"
    and "3 * idx + 2 < length flat"
    and "\<forall>ch \<in> set chs. flat' ! (3 * idx + ch)
           = flow_flat (embed_channels enc d idx chs flat b) ! (3 * idx + ch)"
  shows "case embed_channels enc d idx chs flat b of
           Return f \<Rightarrow>
             extract_channels flat' d idx chs raw b = Inr (Return (decode_redundancy enc))
         | Continue (f, b') \<Rightarrow>
             (\<exists>raw'. extract_channels flat' d idx chs raw b = Inr (Continue (raw', b')) \<and>
                length raw' = length enc \<and> b' \<le> length enc \<and> take b' raw' = take b' enc \<and>
                min (length enc) (b + d * length chs) \<le> b')"
  using assms(3-9)
proof (induction chs arbitrary: flat b raw)
  case Nil
  then show ?case by simp
next
  case (Cons ch chs)
  show ?case
  proof (cases "length enc \<le> b")
    case True
    then have "raw = enc" using Cons.prems(1,2,3) by simp
    then show ?thesis using True by simp
  next
    case False
    define tk where "tk = min d (length enc - b)"
    define chunk where "chunk = take tk (drop b enc)"
    define flat1 where "flat1 = flat[3 * idx + ch := store_chunk (flat ! (3 * idx + ch)) tk chunk]"
    define raw1 where "raw1 = take b raw @ chunk @ drop (b + tk) raw"
    have tk: "0 < tk" "tk \<le> 8" "tk \<le> d" "b + tk \<le> length enc"
      using False assms(1,2) by (auto simp: tk_def)
    have lc: "length chunk = tk" using tk(4) by (simp add: chunk_def)
    have estep: "embed_channels enc d idx (ch # chs) flat b
                   = embed_channels enc d idx chs flat1 (b + tk)"
      using False by (simp add: tk_def chunk_def flat1_def Let_def)
    have ch: "ch < 3" "ch \<notin> set chs" "distinct chs" "\<forall>c \<in> set chs. c < 3"
      using Cons.prems(4,5) by simp_all
    have inr: "3 * idx + ch < length flat" using ch(1) Cons.prems(6) by linarith
    have "3 * idx + ch \<notin> (\<lambda>c. 3 * idx + c) ` set chs" using ch(2) by auto
    from embed_channels_untouched [OF this, of enc d flat1 "b + tk"]
    have "flow_flat (embed_channels enc d idx chs flat1 (b + tk)) ! (3 * idx + ch)
            = store_chunk (flat ! (3 * idx + ch)) tk chunk"
      using inr by (simp add: flat1_def)
    then have rd: "flat' ! (3 * idx + ch) = store_chunk (flat ! (3 * idx + ch)) tk chunk"
      using Cons.prems(7) estep by simp
    have bits: "load_chunk (flat' ! (3 * idx + ch)) tk = chunk"
      unfolding rd using tk(1,2) lc by (rule load_store_chunk)
    have xstep: "extract_channels flat' d idx (ch # chs) raw b
                   = extract_channels flat' d idx chs raw1 (b + tk)"
      using False Cons.prems(1) lc
      by (simp add: tk_def [symmetric] bits raw1_def Let_def)
    have l1: "length raw1 = length enc"
      using tk(4) lc Cons.prems(1,2) by (simp add: raw1_def)
    have "take (b + tk) raw1 = take b raw @ chunk"
      using lc Cons.prems(1,2) by (simp add: raw1_def)
    also have "\<dots> = take b enc @ take tk (drop b enc)"
      using Cons.prems(3) by (simp add: chunk_def)
    also have "\<dots> = take (b + tk) enc" by (simp add: take_add)
    finally have t1: "take (b + tk) raw1 = take (b + tk) enc" .
    have f1: "3 * idx + 2 < length flat1" using Cons.prems(6) by (simp add: flat1_def)
    have a1: "\<forall>c \<in> set chs. flat' ! (3 * idx + c)
                = flow_flat (embed_channels enc d idx chs flat1 (b + tk)) ! (3 * idx + c)"
      using Cons.prems(7) estep by simp
    have m: "min (length enc) (b + d * length (ch # chs)) \<le> b'"
      if "min (length enc) (b + tk + d * length chs) \<le> b'" for b'
      using that tk(3,4) by (auto simp: tk_def min_def split: if_splits)
    from Cons.IH [OF l1 tk(4) t1 ch(3,4) f1 a1] show ?thesis
      unfolding estep xstep using m by (auto split: flow.splits)
  qed
qed

lemma loop_lockstep:
  assumes "\<forall>d \<in> set dm. 0 < d \<and> d \<le> 8"
    and "distinct os" "\<forall>idx \<in> set os. idx < length dm" "length flat = 3 * length dm"
    and "length raw = length enc" "b \<le> length enc" "take b raw = take b enc"
    and "length enc \<le> b + 3 * sum_list (map ((!) dm) os)"
    and "embed_loop dm enc os flat b = Inr F"
    and "\<forall>idx \<in> set os. \<forall>ch < 3. flat' ! (3 * idx + ch) = F ! (3 * idx + ch)"
  shows "extract_loop dm flat' os raw b = Inr (decode_redundancy enc)"
  using assms(2-10)
proof (induction os arbitrary: flat b raw)
  case Nil
  then have "raw = enc" by simp
  then show ?case by simp
next
  case (Cons idx os)
  from Cons.prems(2) have idx: "idx < length dm" and in_range: "\<forall>i \<in> set os. i < length dm"
    by simp_all
  from Cons.prems(1) have fresh: "idx \<notin> set os" and dist: "distinct os" by simp_all
  from assms(1) idx have d: "0 < dm ! idx" "dm ! idx \<le> 8"
    using nth_mem by blast+
  have fl: "3 * idx + 2 < length flat" using idx Cons.prems(3) by linarith
  have ch: "distinct channels" "\<forall>ch \<in> set channels. ch < 3" "length channels = 3"
    by (simp_all add: channels_def)
  define r where "r = embed_channels enc (dm ! idx) idx channels flat b"
  have frame: "length (flow_flat r) = length flat"
    using embed_channels_frame [OF ch(2), of enc "dm ! idx" idx flat b] by (simp add: r_def)
  show ?case
  proof (cases r)
    case (Return f)
    with Cons.prems(8) idx d(1) have F: "F = f"
      by (simp add: r_def [symmetric] Let_def del: embed_channels.simps)
    have agree: "\<forall>ch \<in> set channels. flat' ! (3 * idx + ch)
                   = flow_flat (embed_channels enc (dm ! idx) idx channels flat b) ! (3 * idx + ch)"
      using Cons.prems(9) ch(2) Return F by (simp add: r_def [symmetric] flow_flat_def)
    from channels_lockstep [OF d Cons.prems(4,5,6) ch(1,2) fl agree]
    have "extract_channels flat' (dm ! idx) idx channels raw b
            = Inr (Return (decode_redundancy enc))"
      using Return by (simp add: r_def [symmetric])
    then show ?thesis
      using idx d(1) by (simp add: Let_def del: extract_channels.simps)
  next
    case (Continue s)
    obtain f b' where s: "s = (f, b')" by (cases s)
    with Continue Cons.prems(8) idx d(1) have rest: "embed_loop dm enc os f b' = Inr F"
      by (simp add: r_def [symmetric] Let_def del: embed_channels.simps)
    have f: "flow_flat r = f" using Continue s by (simp add: flow_flat_def)
    have kept: "F ! (3 * idx + c) = f ! (3 * idx + c)" if "c < 3" for c
    proof -
      have "(3 * idx + c) div 3 = idx" using that by simp
      then show ?thesis using embed_loop_untouched [OF rest, of "3 * idx + c"] fresh by simp
    qed
    have agree: "\<forall>ch \<in> set channels. flat' ! (3 * idx + ch)
                   = flow_flat (embed_channels enc (dm ! idx) idx channels flat b) ! (3 * idx + ch)"
      using Cons.prems(9) ch(2) kept f by (simp add: r_def [symmetric])
    from channels_lockstep [OF d Cons.prems(4,5,6) ch(1,2) fl agree]
    obtain raw' where x: "extract_channels flat' (dm ! idx) idx channels raw b
                            = Inr (Continue (raw', b'))"
      and l: "length raw' = length enc" and b': "b' \<le> length enc"
      and t: "take b' raw' = take b' enc"
      and m: "min (length enc) (b + dm ! idx * 3) \<le> b'"
      using Continue s by (auto simp: r_def [symmetric] ch(3))
    have cap: "length enc \<le> b' + 3 * sum_list (map ((!) dm) os)"
      using m Cons.prems(7) by (auto simp: min_def split: if_splits)
    have lf: "length f = 3 * length dm" using frame f Cons.prems(3) by simp
    have ag: "\<forall>i \<in> set os. \<forall>ch < 3. flat' ! (3 * i + ch) = F ! (3 * i + ch)"
      using Cons.prems(9) by simp
    from Cons.IH [OF dist in_range lf l b' t cap rest ag]
    show ?thesis
      using x idx d(1) by (simp add: Let_def del: extract_channels.simps)
  qed
qed

text \<open>
  The engine itself is sound: had the stego image the depth map of its cover, extraction
  would return the embedded bits. The defect is confined to the depth map, which is
  computed from the bits that embedding rewrites.
\<close>

lemma roundtrip_when_depth_map_kept:
  assumes "wf_image arr" and "shuffles ext"
    and "embed_bits True ext arr bits pw = Inr stego"
    and "compute_edge_depth_map True stego = compute_edge_depth_map True arr"
  shows "extract_bits True ext stego (length bits) pw = Inr bits"
proof -
  obtain dm where dm: "compute_edge_depth_map True arr = Inr dm"
    by (simp add: depth_map_Inr)
  define order where "order = rng_shuffle ext (seed_from_key ext pw) [0..<img_h arr * img_w arr]"
  define enc where "enc = np_repeat bits REDUNDANCY"
  from assms(3) dm obtain F where cap: "length enc \<le> sum_list dm * 3"
    and loop: "embed_loop dm enc order (img_flat arr) 0 = Inr F"
    and stego: "stego = arr\<lparr>img_flat := F\<rparr>"
    by (auto simp: embed_bits_def Let_def order_def enc_def split: if_splits sum.splits)
  have len: "length dm = img_h arr * img_w arr" using dm by (rule depth_map_length)
  have depths: "\<forall>d \<in> set dm. 0 < d \<and> d \<le> 8"
    using depth_map_values [OF dm] by fastforce
  have dist: "distinct order" and in_range: "\<forall>idx \<in> set order. idx < length dm"
    using shuffles_order(1,2) [OF assms(2)] by (simp_all add: order_def len)
  have "mset order = mset [0..<length dm]"
    using assms(2) by (simp add: shuffles_def order_def len)
  then have cap': "length enc \<le> 0 + 3 * sum_list (map ((!) dm) order)"
    using cap by (simp add: sum_list_shuffled)
  have lf: "length (img_flat arr) = 3 * length dm"
    using assms(1) by (simp add: wf_image_def len)
  have lr: "length (replicate (length bits * REDUNDANCY) False) = length enc"
    by (simp add: enc_def length_np_repeat)
  from loop_lockstep [OF depths dist in_range lf lr _ _ cap' loop, of F]
  have "extract_loop dm F order (replicate (length bits * REDUNDANCY) False) 0
          = Inr (decode_redundancy enc)"
    by simp
  moreover have "decode_redundancy enc = bits"
    by (simp add: enc_def REDUNDANCY_def decode_redundancy_repeat)
  ultimately show ?thesis
    using assms(4) dm by (simp add: extract_bits_def Let_def stego order_def)
qed

end
